theory Spec2Isabelle
  imports Main "HOL-Library.Char_ord" "HOL-Library.List_Lexorder" "HOL-Library.Multiset"
begin

section \<open>The radix tree of radix.go\<close>

subsection \<open>Data model\<close>

text \<open>
  Go strings are byte sequences: a key is a \<open>string\<close> (a list of 8-bit \<open>char\<close>s), bytes are
  compared as unsigned numbers (the order of \<open>Char_ord\<close>) and keys lexicographically.

  A \<open>Node\<close> holds the optional leaf (\<open>None\<close> is the nil pointer of \<open>leaf *leafNode\<close>), the
  compressed prefix and the edge slice; an \<open>Edge\<close> is the pair of its label and its child.
  Every node is reached through one pointer only (from its parent's edge, or from the tree
  for the root), so the pointer structure is the datatype itself.
\<close>

datatype 'v Node = Node (leaf: "'v option") (prefix: string) (edges: "(char \<times> 'v Node) list")

type_synonym 'v Edge = "char \<times> 'v Node"

record 'v Tree =
  root :: "'v Node"
  tsize :: int   \<comment> \<open>the field \<open>size\<close>\<close>

text \<open>
  The results of type \<open>interface{}\<close>: a value that was stored by the caller, the \<open>nil\<close> the
  code returns by itself, and the literal \<open>0\<close> that \<open>Get\<close> and \<open>Delete\<close> return on a miss.
\<close>

datatype 'v iface = GoNil | GoZero | GoVal 'v

definition HasValue :: "'v Node \<Rightarrow> bool" where
  "HasValue n = (leaf n \<noteq> None)"

definition Value :: "'v Node \<Rightarrow> 'v iface" where
  "Value n = (case leaf n of None \<Rightarrow> GoNil | Some v \<Rightarrow> GoVal v)"

subsection \<open>Edge management\<close>

text \<open>
  \<open>sort.Search n f\<close> of the Go library: binary search for the smallest index in \<open>[0, n)\<close>
  at which \<open>f\<close> holds (\<open>n\<close> if there is none), for a monotone \<open>f\<close>.
\<close>

function sort_Search_loop :: "(nat \<Rightarrow> bool) \<Rightarrow> nat \<Rightarrow> nat \<Rightarrow> nat" where
  "sort_Search_loop f i j =
     (if i < j then
        (let h = (i + j) div 2 in
         if \<not> f h then sort_Search_loop f (h + 1) j else sort_Search_loop f i h)
      else i)"
  by pat_completeness auto
termination
  by (relation "measure (\<lambda>(f, i, j). j - i)") auto

declare sort_Search_loop.simps [simp del]

definition sort_Search :: "nat \<Rightarrow> (nat \<Rightarrow> bool) \<Rightarrow> nat" where
  "sort_Search n f = sort_Search_loop f 0 n"

text \<open>
  \<open>addEdge\<close>: append, then \<open>sort.Sort\<close> by label. Every call site adds a label that the
  slice does not hold yet, and on distinct labels every sorting algorithm gives the same
  slice.
\<close>

definition addEdge :: "'v Edge list \<Rightarrow> 'v Edge \<Rightarrow> 'v Edge list" where
  "addEdge es e = sort_key fst (es @ [e])"

text \<open>\<open>updateEdge\<close>: \<open>None\<close> is the panic "replacing missing Edge".\<close>

definition updateEdge :: "'v Edge list \<Rightarrow> char \<Rightarrow> 'v Node \<Rightarrow> 'v Edge list option" where
  "updateEdge es label node =
     (let num = length es;
          idx = sort_Search num (\<lambda>i. fst (es ! i) \<ge> label)
      in if idx < num \<and> fst (es ! idx) = label
         then Some (es[idx := (fst (es ! idx), node)])
         else None)"

text \<open>
  \<open>getEdge\<close>: the hand-written binary search, with the signed bounds of the source
  (\<open>right\<close> starts at \<open>len - 1\<close>, which is \<open>-1\<close> on an empty slice). The model returns the
  index of the edge found, so that a caller that mutates the child the source's pointer
  leads to can write it back at that place.
\<close>

function getEdge_loop :: "'v Edge list \<Rightarrow> char \<Rightarrow> int \<Rightarrow> int \<Rightarrow> nat option" where
  "getEdge_loop es label left right =
     (if left \<le> right then
        (let i = (left + right) div 2;
             edgeLabel = fst (es ! nat i)
         in if edgeLabel < label then getEdge_loop es label (i + 1) right
            else if edgeLabel > label then getEdge_loop es label left (i - 1)
            else Some (nat i))
      else None)"
  by pat_completeness auto
termination
  by (relation "measure (\<lambda>(es, label, left, right). nat (right - left + 1))") auto

declare getEdge_loop.simps [simp del]

definition getEdgeIdx :: "'v Edge list \<Rightarrow> char \<Rightarrow> nat option" where
  "getEdgeIdx es label = getEdge_loop es label 0 (int (length es) - 1)"

definition getEdge :: "'v Node \<Rightarrow> char \<Rightarrow> 'v Node option" where
  "getEdge n label = map_option (\<lambda>i. snd (edges n ! i)) (getEdgeIdx (edges n) label)"

definition delEdge :: "'v Edge list \<Rightarrow> char \<Rightarrow> 'v Edge list" where
  "delEdge es label =
     (let num = length es;
          idx = sort_Search num (\<lambda>i. fst (es ! i) \<ge> label)
      in if idx < num \<and> fst (es ! idx) = label
         then take idx es @ drop (idx + 1) es
         else es)"

text \<open>Writing a mutated child back where the pointer found by \<open>getEdge\<close> leads.\<close>

definition setChild :: "'v Node \<Rightarrow> nat \<Rightarrow> 'v Node \<Rightarrow> 'v Node" where
  "setChild n i c = Node (leaf n) (prefix n) ((edges n)[i := (fst (edges n ! i), c)])"

text \<open>\<open>strings.HasPrefix s p\<close>: \<open>s\<close> begins with \<open>p\<close>.\<close>

definition HasPrefix :: "string \<Rightarrow> string \<Rightarrow> bool" where
  "HasPrefix s p = (take (length p) s = p)"

text \<open>
  Termination of every descent: the index \<open>getEdge\<close> finds is inside the slice, and a child
  is smaller than its parent.
\<close>

lemma getEdge_loop_bound:
  "getEdge_loop es label left right = Some i \<Longrightarrow> 0 \<le> left \<Longrightarrow> right < int (length es)
   \<Longrightarrow> i < length es"
proof (induction es label left right rule: getEdge_loop.induct)
  case (1 es label left right)
  show ?case
  proof (cases "left \<le> right")
    case False
    with "1.prems" show ?thesis by (subst (asm) getEdge_loop.simps) simp
  next
    case True
    let ?i = "(left + right) div 2"
    from True "1.prems" have rng: "left \<le> ?i" "?i \<le> right" "0 \<le> ?i" by auto
    show ?thesis
    proof (cases "fst (es ! nat ?i) < label")
      case lt: True
      with True "1.prems" have "getEdge_loop es label (?i + 1) right = Some i"
        by (subst (asm) getEdge_loop.simps) (simp add: Let_def)
      with "1.IH"(1)[OF True refl refl lt] rng "1.prems" show ?thesis by simp
    next
      case nlt: False
      show ?thesis
      proof (cases "fst (es ! nat ?i) > label")
        case gt: True
        with True nlt "1.prems" have "getEdge_loop es label left (?i - 1) = Some i"
          by (subst (asm) getEdge_loop.simps) (simp add: Let_def)
        with "1.IH"(2)[OF True refl refl nlt gt] rng "1.prems" show ?thesis by simp
      next
        case False
        with True nlt "1.prems" have "i = nat ?i"
          by (subst (asm) getEdge_loop.simps) (simp add: Let_def)
        with rng "1.prems" show ?thesis by auto
      qed
    qed
  qed
qed

lemma getEdgeIdx_bound: "getEdgeIdx es label = Some i \<Longrightarrow> i < length es"
  unfolding getEdgeIdx_def by (erule getEdge_loop_bound) auto

lemma size_child: "e \<in> set (edges n) \<Longrightarrow> size (snd e) < size n"
proof (cases n)
  case (Node lf p es)
  assume "e \<in> set (edges n)"
  with Node have "e \<in> set es" by simp
  then have "size (snd e) < size_list (\<lambda>x. Suc (size (snd x))) es"
    by (induction es) auto
  with Node show ?thesis by (simp add: size_prod_simp)
qed

lemma size_getEdgeIdx [termination_simp]:
  "getEdgeIdx (edges n) label = Some i \<Longrightarrow> size (snd (edges n ! i)) < size n"
  by (rule size_child) (simp add: getEdgeIdx_bound)

subsection \<open>Insert\<close>

text \<open>\<open>longestPrefix\<close>: the length of the shared prefix of two strings.\<close>

fun longestPrefix :: "string \<Rightarrow> string \<Rightarrow> nat" where
  "longestPrefix (a # k1) (b # k2) = (if a \<noteq> b then 0 else Suc (longestPrefix k1 k2))"
| "longestPrefix _ _ = 0"

text \<open>
  The loop of \<open>Insert\<close>, at the node \<open>n\<close> with the rest \<open>search\<close> of the key; \<open>sz\<close> is
  \<open>t.size\<close>. The result is the new size, the node as the loop leaves it, and the two
  results of \<open>Insert\<close>; \<open>None\<close> is the panic of \<open>updateEdge\<close>. The index
  \<open>n.prefix[commonPrefix]\<close> is in range on the split branch, where
  \<open>commonPrefix < len(n.prefix)\<close>.
\<close>

function insert_loop ::
  "int \<Rightarrow> 'v Node \<Rightarrow> string \<Rightarrow> 'v \<Rightarrow> (int \<times> 'v Node \<times> 'v iface \<times> bool) option" where
  "insert_loop sz n search v =
     (if search = [] then
        (case leaf n of
           Some old \<Rightarrow> Some (sz, Node (Some v) (prefix n) (edges n), GoVal old, True)
         | None \<Rightarrow> Some (sz + 1, Node (Some v) (prefix n) (edges n), GoNil, False))
      else
        (case getEdgeIdx (edges n) (hd search) of
           None \<Rightarrow>
             Some (sz + 1,
                   Node (leaf n) (prefix n)
                     (addEdge (edges n) (hd search, Node (Some v) search [])),
                   GoNil, False)
         | Some i \<Rightarrow>
             (let c = snd (edges n ! i);
                  commonPrefix = longestPrefix search (prefix c)
              in if commonPrefix = length (prefix c) then
                   (case insert_loop sz c (drop commonPrefix search) v of
                      None \<Rightarrow> None
                    | Some (sz', c', old, existed) \<Rightarrow> Some (sz', setChild n i c', old, existed))
                 else
                   (let old_n = Node (leaf c) (drop commonPrefix (prefix c)) (edges c);
                        restored = addEdge [] (prefix c ! commonPrefix, old_n);
                        search' = drop commonPrefix search;
                        child =
                          (if search' = [] then
                             Node (Some v) (take commonPrefix search) restored
                           else
                             Node None (take commonPrefix search)
                               (addEdge restored (hd search', Node (Some v) search' [])))
                    in case updateEdge (edges n) (hd search) child of
                         None \<Rightarrow> None
                       | Some es \<Rightarrow> Some (sz + 1, Node (leaf n) (prefix n) es, GoNil, False)))))"
  by pat_completeness auto
termination
  by (relation "measure (\<lambda>(sz, n, search, v). size n)") (auto simp: size_getEdgeIdx)

declare insert_loop.simps [simp del]

definition Insert :: "'v Tree \<Rightarrow> string \<Rightarrow> 'v \<Rightarrow> ('v Tree \<times> 'v iface \<times> bool) option" where
  "Insert t s v =
     (case insert_loop (tsize t) (root t) s v of
        None \<Rightarrow> None
      | Some (sz, r, old, existed) \<Rightarrow> Some (\<lparr>root = r, tsize = sz\<rparr>, old, existed))"

definition New :: "'v Tree" where
  "New = \<lparr>root = Node None [] [], tsize = 0\<rparr>"

subsection \<open>Walk\<close>

text \<open>
  \<open>recursiveWalk\<close>: the callback \<open>fn\<close> is a Go closure; it is given the state \<open>'s\<close> it
  closes over and returns that state with its result. The result of the walk is the abort
  flag and the state the callbacks leave. \<open>walk_edges\<close> is the \<open>for ... range n.edges\<close>
  loop.
\<close>

type_synonym ('v, 's) WalkFn = "string \<Rightarrow> 'v \<Rightarrow> 's \<Rightarrow> bool \<times> 's"

fun recursiveWalk :: "string \<Rightarrow> 'v Node \<Rightarrow> ('v, 's) WalkFn \<Rightarrow> 's \<Rightarrow> bool \<times> 's"
  and walk_edges :: "string \<Rightarrow> 'v Edge list \<Rightarrow> ('v, 's) WalkFn \<Rightarrow> 's \<Rightarrow> bool \<times> 's" where
  "recursiveWalk pre (Node lf p es) fn s =
     (let newPrefix = pre @ p in
      case lf of
        None \<Rightarrow> walk_edges newPrefix es fn s
      | Some v \<Rightarrow>
          (case fn newPrefix v s of
             (True, s') \<Rightarrow> (True, s')
           | (False, s') \<Rightarrow> walk_edges newPrefix es fn s'))"
| "walk_edges newPrefix [] fn s = (False, s)"
| "walk_edges newPrefix (e # es) fn s =
     (case recursiveWalk newPrefix (snd e) fn s of
        (True, s') \<Rightarrow> (True, s')
      | (False, s') \<Rightarrow> walk_edges newPrefix es fn s')"

definition Walk :: "'v Node \<Rightarrow> string \<Rightarrow> ('v, 's) WalkFn \<Rightarrow> 's \<Rightarrow> 's" where
  "Walk parent pre fn s = snd (recursiveWalk pre parent fn s)"

text \<open>\<open>ToMap\<close>: the callback stores into the map \<open>out\<close> and never stops the walk.\<close>

definition ToMap :: "'v Tree \<Rightarrow> (string \<rightharpoonup> 'v)" where
  "ToMap t = Walk (root t) [] (\<lambda>k v out. (False, out(k \<mapsto> v))) Map.empty"

definition Len :: "'v Tree \<Rightarrow> int" where
  "Len t = tsize t"

subsection \<open>Delete and DeletePrefix\<close>

text \<open>
  \<open>mergeChild\<close> reads \<open>n.edges[0]\<close>. Both callers test \<open>len(n.edges) == 1\<close> first, so the
  empty case (a run-time panic in Go) is never evaluated.
\<close>

definition mergeChild :: "'v Node \<Rightarrow> 'v Node" where
  "mergeChild n =
     (case edges n of
        [] \<Rightarrow> n
      | e # _ \<Rightarrow> Node (leaf (snd e)) (prefix n @ prefix (snd e)) (edges (snd e)))"

text \<open>
  Both deletions descend to a target node and then change the target and its parent. The
  descent reports \<open>Miss\<close> (the path broke), \<open>Here r\<close> (the node given is the target; the
  caller, which holds the parent, does the changes) or \<open>Below r n'\<close> (the target was
  further down and the node given is now \<open>n'\<close>).
\<close>

datatype ('r, 'v) descent = Miss | Here 'r | Below 'r "'v Node"

text \<open>
  The part of \<open>Delete\<close> after the label \<open>DELETE\<close>, for a target \<open>n\<close> that is the child at
  index \<open>i\<close> of \<open>parent\<close> and was found under \<open>label\<close>: the result is the parent.
\<close>

definition delete_at :: "bool \<Rightarrow> 'v Node \<Rightarrow> char \<Rightarrow> nat \<Rightarrow> 'v Node" where
  "delete_at parent_is_root parent label i =
     (let n = snd (edges parent ! i);
          n1 = Node None (prefix n) (edges n);
          p1 = setChild parent i n1;
          p2 = (if length (edges n1) = 0
                then Node (leaf p1) (prefix p1) (delEdge (edges p1) label) else p1);
          p3 = (if length (edges n1) = 1 then setChild p2 i (mergeChild n1) else p2)
      in if \<not> parent_is_root \<and> length (edges p3) = 1 \<and> \<not> HasValue p3
         then mergeChild p3 else p3)"

function delete_loop :: "bool \<Rightarrow> 'v Node \<Rightarrow> string \<Rightarrow> ('v, 'v) descent" where
  "delete_loop is_root n search =
     (if search = [] then
        (case leaf n of None \<Rightarrow> Miss | Some val \<Rightarrow> Here val)
      else
        (case getEdgeIdx (edges n) (hd search) of
           None \<Rightarrow> Miss
         | Some i \<Rightarrow>
             (let c = snd (edges n ! i) in
              if HasPrefix search (prefix c) then
                (case delete_loop False c (drop (length (prefix c)) search) of
                   Miss \<Rightarrow> Miss
                 | Here val \<Rightarrow> Below val (delete_at is_root n (hd search) i)
                 | Below val c' \<Rightarrow> Below val (setChild n i c'))
              else Miss)))"
  by pat_completeness auto
termination
  by (relation "measure (\<lambda>(r, n, search). size n)") (auto simp: size_getEdgeIdx)

declare delete_loop.simps [simp del]

text \<open>
  At the root the target has no parent (\<open>parent == nil\<close>, \<open>n == t.root\<close>): only the leaf is
  cleared.
\<close>

definition Delete :: "'v Tree \<Rightarrow> string \<Rightarrow> 'v Tree \<times> 'v iface \<times> bool" where
  "Delete t s =
     (case delete_loop True (root t) s of
        Miss \<Rightarrow> (t, GoZero, False)
      | Here val \<Rightarrow>
          (\<lparr>root = Node None (prefix (root t)) (edges (root t)), tsize = tsize t - 1\<rparr>,
           GoVal val, True)
      | Below val r \<Rightarrow> (\<lparr>root = r, tsize = tsize t - 1\<rparr>, GoVal val, True))"

text \<open>The count of \<open>deletePrefix\<close>: a walk whose callback increments \<open>subTreeSize\<close>.\<close>

definition subTreeSize :: "'v Node \<Rightarrow> int" where
  "subTreeSize n = snd (recursiveWalk [] n (\<lambda>s v cnt. (False, cnt + 1)) 0)"

text \<open>
  The exhaustion branch of \<open>deletePrefix\<close> for a target that is the child at index \<open>i\<close> of
  \<open>parent\<close>: the target loses its leaf and its edges and stays where it is; then the
  parent is merged if it is not the root, has one edge and no value.
\<close>

definition deletePrefix_at :: "bool \<Rightarrow> 'v Node \<Rightarrow> nat \<Rightarrow> 'v Node" where
  "deletePrefix_at parent_is_root parent i =
     (let n = snd (edges parent ! i);
          p1 = setChild parent i (Node None (prefix n) [])
      in if \<not> parent_is_root \<and> length (edges p1) = 1 \<and> \<not> HasValue p1
         then mergeChild p1 else p1)"

function deletePrefix :: "bool \<Rightarrow> 'v Node \<Rightarrow> string \<Rightarrow> (int, 'v) descent" where
  "deletePrefix is_root n pre =
     (if pre = [] then Here (subTreeSize n)
      else
        (case getEdgeIdx (edges n) (hd pre) of
           None \<Rightarrow> Miss
         | Some i \<Rightarrow>
             (let child = snd (edges n ! i) in
              if \<not> HasPrefix (prefix child) pre \<and> \<not> HasPrefix pre (prefix child) then Miss
              else
                (let pre' = (if length (prefix child) > length pre
                             then drop (length pre) pre
                             else drop (length (prefix child)) pre)
                 in case deletePrefix False child pre' of
                      Miss \<Rightarrow> Miss
                    | Here cnt \<Rightarrow> Below cnt (deletePrefix_at is_root n i)
                    | Below cnt child' \<Rightarrow> Below cnt (setChild n i child')))))"
  by pat_completeness auto
termination
  by (relation "measure (\<lambda>(r, n, pre). size n)") (auto simp: size_getEdgeIdx)

declare deletePrefix.simps [simp del]

definition DeletePrefix :: "'v Tree \<Rightarrow> string \<Rightarrow> 'v Tree \<times> int" where
  "DeletePrefix t s =
     (case deletePrefix True (root t) s of
        Miss \<Rightarrow> (t, 0)
      | Here cnt \<Rightarrow> (\<lparr>root = Node None (prefix (root t)) [], tsize = tsize t - cnt\<rparr>, cnt)
      | Below cnt r \<Rightarrow> (\<lparr>root = r, tsize = tsize t - cnt\<rparr>, cnt))"

subsection \<open>Lookup\<close>

text \<open>
  The loop of \<open>Find\<close>: the rest of the key, \<open>lastLeafNode\<close> and the node \<open>n\<close> when the loop
  ends. Nodes are returned as values; the callers only read them.
\<close>

function find_loop ::
  "'v Node \<Rightarrow> string \<Rightarrow> 'v Node option \<Rightarrow> string \<times> 'v Node option \<times> 'v Node" where
  "find_loop n search lastLeafNode =
     (if search = [] then (search, lastLeafNode, n)
      else
        (let lastLeafNode' = (if HasValue n then Some n else lastLeafNode) in
         case getEdgeIdx (edges n) (hd search) of
           None \<Rightarrow> (search, lastLeafNode', n)
         | Some i \<Rightarrow>
             (let child = snd (edges n ! i) in
              if HasPrefix search (prefix child)
              then find_loop child (drop (length (prefix child)) search) lastLeafNode'
              else (search, lastLeafNode', child))))"
  by pat_completeness auto
termination
  by (relation "measure (\<lambda>(n, search, l). size n)") (auto simp: size_getEdgeIdx)

declare find_loop.simps [simp del]

definition Find :: "'v Node \<Rightarrow> string \<Rightarrow> bool \<times> nat \<times> 'v Node option \<times> 'v Node" where
  "Find parent s =
     (case find_loop parent s None of
        (search, lastLeafNode, n) \<Rightarrow>
          (search = [], length s - length search, lastLeafNode, n))"

definition Get :: "'v Tree \<Rightarrow> string \<Rightarrow> 'v iface \<times> bool" where
  "Get t s =
     (case Find (root t) s of
        (isFound, _, _, lastNode) \<Rightarrow>
          if \<not> isFound then (GoZero, False) else (Value lastNode, True))"

text \<open>
  \<open>LongestPrefix\<close> binds the fourth result of \<open>Find\<close> (the last node reached) to its
  variable \<open>lastLeafNode\<close>, and its third result is the constant \<open>true\<close>.
\<close>

definition LongestPrefix :: "'v Tree \<Rightarrow> string \<Rightarrow> string \<times> 'v iface \<times> bool" where
  "LongestPrefix t s =
     (case Find (root t) s of
        (_, prefixLen, _, lastLeafNode) \<Rightarrow> (take prefixLen s, Value lastLeafNode, True))"

function Minimum_loop :: "'v Node \<Rightarrow> string \<Rightarrow> string \<times> 'v iface \<times> bool" where
  "Minimum_loop n pre =
     (case leaf n of
        Some val \<Rightarrow> (pre, GoVal val, True)
      | None \<Rightarrow>
          (if length (edges n) > 0
           then (let n' = snd (edges n ! 0) in Minimum_loop n' (pre @ prefix n'))
           else ([], GoNil, False)))"
  by pat_completeness auto
termination
  by (relation "measure (\<lambda>(n, pre). size n)") (auto intro: size_child)

declare Minimum_loop.simps [simp del]

definition Minimum :: "'v Tree \<Rightarrow> string \<times> 'v iface \<times> bool" where
  "Minimum t = Minimum_loop (root t) []"

function Maximum_loop :: "'v Node \<Rightarrow> string \<Rightarrow> string \<times> 'v iface \<times> bool" where
  "Maximum_loop n pre =
     (let num = length (edges n) in
      if num > 0
      then (let n' = snd (edges n ! (num - 1)) in Maximum_loop n' (pre @ prefix n'))
      else
        (case leaf n of
           Some val \<Rightarrow> (pre, GoVal val, True)
         | None \<Rightarrow> ([], GoNil, False)))"
  by pat_completeness auto
termination
  by (relation "measure (\<lambda>(n, pre). size n)") (auto intro: size_child)

declare Maximum_loop.simps [simp del]

definition Maximum :: "'v Tree \<Rightarrow> string \<times> 'v iface \<times> bool" where
  "Maximum t = Maximum_loop (root t) []"

subsection \<open>Sequences of public operations\<close>

text \<open>
  \<open>New\<close> is the tree of \<open>NewFromMap(nil)\<close>; \<open>NewFromMap m\<close> is \<open>New\<close> followed by one
  \<open>Insert\<close> per entry. A run of mutating operations is \<open>None\<close> when one of them panics.
\<close>

datatype 'v op = OpInsert string 'v | OpDelete string | OpDeletePrefix string

fun apply_op :: "'v Tree \<Rightarrow> 'v op \<Rightarrow> 'v Tree option" where
  "apply_op t (OpInsert k v) = map_option fst (Insert t k v)"
| "apply_op t (OpDelete k) = Some (fst (Delete t k))"
| "apply_op t (OpDeletePrefix p) = Some (fst (DeletePrefix t p))"

fun run_ops :: "'v Tree \<Rightarrow> 'v op list \<Rightarrow> 'v Tree option" where
  "run_ops t [] = Some t"
| "run_ops t (x # xs) = (case apply_op t x of None \<Rightarrow> None | Some t' \<Rightarrow> run_ops t' xs)"

subsection \<open>The invariants of the data model\<close>

text \<open>
  Structural compaction: a node below the root has two children or more, or a value.
\<close>

fun compacted :: "'v Node \<Rightarrow> bool" where
  "compacted (Node lf p es) =
     ((length es \<ge> 2 \<or> lf \<noteq> None) \<and> list_all (\<lambda>e. compacted (snd e)) es)"

definition compacted_tree :: "'v Tree \<Rightarrow> bool" where
  "compacted_tree t = list_all (\<lambda>e. compacted (snd e)) (edges (root t))"

section \<open>Edge slices in label order\<close>

text \<open>
  The data model keeps the edges of a node sorted by label, with no label twice. On such
  a slice the two binary searches of the source (\<open>sort.Search\<close> in \<open>updateEdge\<close> and
  \<open>delEdge\<close>, the loop of \<open>getEdge\<close>) find the edge with a given label when there is one.
\<close>

definition sorted_labels :: "'v Edge list \<Rightarrow> bool" where
  "sorted_labels es = sorted_wrt (<) (map fst es)"

lemma sorted_labels_nth_mono:
  "sorted_labels es \<Longrightarrow> a < b \<Longrightarrow> b < length es \<Longrightarrow> fst (es ! a) < fst (es ! b)"
  using sorted_wrt_nth_less[of "(<)" "map fst es" a b] by (simp add: sorted_labels_def)

lemma sorted_labels_nth_inj:
  "sorted_labels es \<Longrightarrow> a < length es \<Longrightarrow> b < length es \<Longrightarrow> fst (es ! a) = fst (es ! b) \<Longrightarrow> a = b"
  using sorted_labels_nth_mono[of es a b] sorted_labels_nth_mono[of es b a]
  by (cases a b rule: linorder_cases) auto

lemma sort_Search_loop_spec:
  "\<forall>a b. a \<le> b \<and> b < n \<and> f a \<longrightarrow> f b \<Longrightarrow> i \<le> j \<Longrightarrow> j \<le> n \<Longrightarrow> \<forall>k<i. \<not> f k \<Longrightarrow> \<forall>k. j \<le> k \<and> k < n \<longrightarrow> f k \<Longrightarrow>
         i \<le> sort_Search_loop f i j \<and> sort_Search_loop f i j \<le> j \<and>
         (\<forall>k < sort_Search_loop f i j. \<not> f k) \<and>
         (\<forall>k. sort_Search_loop f i j \<le> k \<and> k < n \<longrightarrow> f k)"
proof (induction f i j rule: sort_Search_loop.induct)
  case (1 f i j)
  have mono: "\<And>a b. a \<le> b \<Longrightarrow> b < n \<Longrightarrow> f a \<Longrightarrow> f b"
    using "1.prems"(1) by blast
  note prems = "1.prems"(2-)
  show ?case
  proof (cases "i < j")
    case False
    then have eq: "sort_Search_loop f i j = i"
      by (subst sort_Search_loop.simps) simp
    from False prems(1) have ij: "i = j" by simp
    show ?thesis unfolding eq using prems(3,4) ij by blast
  next
    case True
    let ?h = "(i + j) div 2"
    from True have h: "i \<le> ?h" "?h < j" by presburger+
    show ?thesis
    proof (cases "f ?h")
      case fh: True
      define r where "r = sort_Search_loop f i ?h"
      have up: "\<forall>k. ?h \<le> k \<and> k < n \<longrightarrow> f k"
      proof (intro allI impI)
        fix k assume "?h \<le> k \<and> k < n"
        then show "f k" using mono[of ?h k] fh by simp
      qed
      have eq: "sort_Search_loop f i j = r"
        unfolding r_def using True fh by (subst sort_Search_loop.simps) (simp add: Let_def)
      have hn: "?h \<le> n" using h prems(2) by linarith
      have "i \<le> r \<and> r \<le> ?h \<and> (\<forall>k < r. \<not> f k) \<and> (\<forall>k. r \<le> k \<and> k < n \<longrightarrow> f k)"
        unfolding r_def
        by (rule "1.IH"(2)[OF True refl _ "1.prems"(1) h(1) hn prems(3) up]) (simp add: fh)
      moreover have "r \<le> ?h \<Longrightarrow> r \<le> j" using h by linarith
      ultimately show ?thesis unfolding eq by blast
    next 
      case nfh: False
      define r where "r = sort_Search_loop f (?h + 1) j"
      have lo: "\<forall>k<?h + 1. \<not> f k"
      proof (intro allI impI)
        fix k assume "k < ?h + 1"
        then have "k \<le> ?h" by simp
        moreover have "?h < n" using h prems by simp
        ultimately show "\<not> f k" using mono[of k ?h] nfh by auto
      qed
      have eq: "sort_Search_loop f i j = r"
        unfolding r_def using True nfh by (subst sort_Search_loop.simps) (simp add: Let_def)
      have hj: "?h + 1 \<le> j" using h by linarith
      have "?h + 1 \<le> r \<and> r \<le> j \<and> (\<forall>k < r. \<not> f k) \<and> (\<forall>k. r \<le> k \<and> k < n \<longrightarrow> f k)"
        unfolding r_def
        by (rule "1.IH"(1)[OF True refl nfh "1.prems"(1) hj prems(2) lo prems(4)])
      moreover have "?h + 1 \<le> r \<Longrightarrow> i \<le> r" using h by linarith
      ultimately show ?thesis unfolding eq by blast
    qed
  qed
qed

lemma sort_Search_label:
  assumes "sorted_labels es" "i < length es" "fst (es ! i) = l"
  shows "sort_Search (length es) (\<lambda>k. l \<le> fst (es ! k)) = i"
proof -
  let ?f = "\<lambda>k. l \<le> fst (es ! k)"
  define r where "r = sort_Search_loop ?f 0 (length es)"
  have m: "\<forall>a b. a \<le> b \<and> b < length es \<and> ?f a \<longrightarrow> ?f b"
  proof (intro allI impI)
    fix a b assume ab: "a \<le> b \<and> b < length es \<and> l \<le> fst (es ! a)"
    show "l \<le> fst (es ! b)"
    proof (cases "a = b")
      case True with ab show ?thesis by simp
    next
      case False
      with ab have lt: "fst (es ! a) < fst (es ! b)"
        using sorted_labels_nth_mono[OF assms(1), of a b] by simp
      from ab have "l \<le> fst (es ! a)" by simp
      also note lt
      finally show ?thesis by (rule less_imp_le)
    qed
  qed
  have top: "\<forall>k. length es \<le> k \<and> k < length es \<longrightarrow> ?f k"
  proof (intro allI impI)
    fix k assume "length es \<le> k \<and> k < length es"
    then have False by linarith
    then show "?f k" ..
  qed
  have spec: "0 \<le> r \<and> r \<le> length es \<and> (\<forall>k < r. \<not> ?f k) \<and>
          (\<forall>k. r \<le> k \<and> k < length es \<longrightarrow> ?f k)"
    unfolding r_def
    by (rule sort_Search_loop_spec[where f = ?f and n = "length es" and i = 0 and j = "length es",
          OF m _ _ _ top]) simp_all
  have "\<not> i < r"
  proof
    assume "i < r"
    with spec have "\<not> l \<le> fst (es ! i)" by blast
    with assms(3) show False by simp
  qed
  moreover have "\<not> r < i"
  proof
    assume lt: "r < i"
    with assms(2) have "r \<le> r \<and> r < length es" by simp
    with spec have "l \<le> fst (es ! r)" by blast
    moreover have "fst (es ! r) < fst (es ! i)"
      using sorted_labels_nth_mono[OF assms(1) lt assms(2)] .
    ultimately show False using assms(3) by simp
  qed
  ultimately have "r = i" by simp
  then show ?thesis by (simp add: sort_Search_def r_def)
qed

lemma getEdge_loop_label:
  "getEdge_loop es label left right = Some i \<Longrightarrow> fst (es ! i) = label"
proof (induction es label left right rule: getEdge_loop.induct)
  case (1 es label left right)
  show ?case
  proof (cases "left \<le> right")
    case False
    with "1.prems" show ?thesis by (subst (asm) getEdge_loop.simps) simp
  next
    case True
    let ?i = "(left + right) div 2"
    show ?thesis
    proof (cases "fst (es ! nat ?i) < label")
      case lt: True
      with True "1.prems" have "getEdge_loop es label (?i + 1) right = Some i"
        by (subst (asm) getEdge_loop.simps) (simp add: Let_def)
      with "1.IH"(1)[OF True refl refl lt] show ?thesis by simp
    next
      case nlt: False
      show ?thesis
      proof (cases "fst (es ! nat ?i) > label")
        case gt: True
        with True nlt "1.prems" have "getEdge_loop es label left (?i - 1) = Some i"
          by (subst (asm) getEdge_loop.simps) (simp add: Let_def)
        with "1.IH"(2)[OF True refl refl nlt gt] show ?thesis by simp
      next
        case False
        with True nlt "1.prems" have "i = nat ?i"
          by (subst (asm) getEdge_loop.simps) (simp add: Let_def)
        with False nlt show ?thesis by auto
      qed
    qed
  qed
qed

lemma getEdge_loop_None:
  "sorted_labels es \<Longrightarrow> getEdge_loop es label left right = None \<Longrightarrow> 0 \<le> left \<Longrightarrow>
   right < int (length es) \<Longrightarrow>
   \<forall>k. k < length es \<and> fst (es ! k) = label \<longrightarrow> left \<le> int k \<and> int k \<le> right \<Longrightarrow>
   \<forall>k < length es. fst (es ! k) \<noteq> label"
proof (induction es label left right rule: getEdge_loop.induct)
  case (1 es label left right)
  show ?case
  proof (cases "left \<le> right")
    case False
    with "1.prems"(5) show ?thesis by force
  next
    case True
    let ?i = "(left + right) div 2"
    from True "1.prems" have rng: "left \<le> ?i" "?i \<le> right" "0 \<le> ?i" "nat ?i < length es" by auto
    show ?thesis
    proof (cases "fst (es ! nat ?i) < label")
      case lt: True
      with True "1.prems" have n: "getEdge_loop es label (?i + 1) right = None"
        by (subst (asm) getEdge_loop.simps) (simp add: Let_def)
      have "\<forall>k. k < length es \<and> fst (es ! k) = label \<longrightarrow> ?i + 1 \<le> int k \<and> int k \<le> right"
      proof (intro allI impI)
        fix k assume k: "k < length es \<and> fst (es ! k) = label"
        have "\<not> k \<le> nat ?i"
        proof
          assume "k \<le> nat ?i"
          then have "fst (es ! k) \<le> fst (es ! nat ?i)"
            using sorted_labels_nth_mono[OF "1.prems"(1), of k "nat ?i"] rng
            by (cases "k = nat ?i") auto
          with lt k show False by simp
        qed
        with k "1.prems"(5) rng show "?i + 1 \<le> int k \<and> int k \<le> right" by auto
      qed
      with "1.IH"(1)[OF True refl refl lt "1.prems"(1) n] rng "1.prems" show ?thesis by simp
    next
      case nlt: False
      show ?thesis
      proof (cases "fst (es ! nat ?i) > label")
        case gt: True
        with True nlt "1.prems" have n: "getEdge_loop es label left (?i - 1) = None"
          by (subst (asm) getEdge_loop.simps) (simp add: Let_def)
        have "\<forall>k. k < length es \<and> fst (es ! k) = label \<longrightarrow> left \<le> int k \<and> int k \<le> ?i - 1"
        proof (intro allI impI)
          fix k assume k: "k < length es \<and> fst (es ! k) = label"
          have "\<not> nat ?i \<le> k"
          proof
            assume "nat ?i \<le> k"
            then have "fst (es ! nat ?i) \<le> fst (es ! k)"
              using sorted_labels_nth_mono[OF "1.prems"(1), of "nat ?i" k] k
              by (cases "k = nat ?i") auto
            with gt k show False by simp
          qed
          with k "1.prems"(5) rng show "left \<le> int k \<and> int k \<le> ?i - 1" by auto
        qed
        with "1.IH"(2)[OF True refl refl nlt gt "1.prems"(1) n] rng "1.prems" show ?thesis by simp
      next
        case False
        with True nlt "1.prems"(2) show ?thesis
          by (subst (asm) getEdge_loop.simps) (simp add: Let_def)
      qed
    qed
  qed
qed

lemma getEdgeIdx_Some:
  "getEdgeIdx es l = Some i \<Longrightarrow> i < length es \<and> fst (es ! i) = l"
  using getEdgeIdx_bound[of es l i] getEdge_loop_label[of es l 0 "int (length es) - 1" i]
  by (simp add: getEdgeIdx_def)

lemma getEdgeIdx_None:
  assumes "sorted_labels es" "getEdgeIdx es l = None"
  shows "l \<notin> fst ` set es"
proof -
  have "\<forall>k < length es. fst (es ! k) \<noteq> l"
    by (rule getEdge_loop_None[OF assms(1) assms(2)[unfolded getEdgeIdx_def]]) auto
  then show ?thesis by (force simp: in_set_conv_nth)
qed

lemma getEdgeIdx_found:
  assumes "sorted_labels es" "i < length es" "fst (es ! i) = l"
  shows "getEdgeIdx es l = Some i"
proof (cases "getEdgeIdx es l")
  case None
  from getEdgeIdx_None[OF assms(1) None] assms(2,3) show ?thesis
    by (metis image_eqI nth_mem)
next
  case (Some j)
  from getEdgeIdx_Some[OF Some] assms sorted_labels_nth_inj[of es i j] Some show ?thesis by simp
qed

lemma updateEdge_found:
  assumes "sorted_labels es" "i < length es" "fst (es ! i) = l"
  shows "updateEdge es l c = Some (es[i := (l, c)])"
  using sort_Search_label[OF assms] assms by (simp add: updateEdge_def Let_def)

lemma updateEdge_missing:
  assumes "l \<notin> fst ` set es"
  shows "updateEdge es l c = None"
proof -
  have "\<And>k. k < length es \<Longrightarrow> fst (es ! k) \<noteq> l"
    using assms by (metis image_eqI nth_mem)
  then show ?thesis by (auto simp: updateEdge_def Let_def)
qed

lemma delEdge_found:
  assumes "sorted_labels es" "i < length es" "fst (es ! i) = l"
  shows "delEdge es l = take i es @ drop (Suc i) es"
  using sort_Search_label[OF assms] assms by (simp add: delEdge_def Let_def)

lemma delEdge_missing:
  assumes "l \<notin> fst ` set es"
  shows "delEdge es l = es"
proof -
  have "\<And>k. k < length es \<Longrightarrow> fst (es ! k) \<noteq> l"
    using assms by (metis image_eqI nth_mem)
  then show ?thesis by (auto simp: delEdge_def Let_def)
qed

lemma sorted_labels_update:
  assumes "i < length es" "fst (es ! i) = l"
  shows "sorted_labels (es[i := (l, c)]) = sorted_labels es"
proof -
  have "(map fst es)[i := l] = map fst es"
    using assms by (simp add: list_update_same_conv)
  then show ?thesis by (simp add: sorted_labels_def map_update)
qed

lemma sorted_wrt_remove_nth:
  assumes "sorted_wrt P xs"
  shows "sorted_wrt P (take i xs @ drop (Suc i) xs)"
proof -
  have "sorted_wrt P (take i xs @ drop i xs)" using assms by simp
  then have parts: "sorted_wrt P (take i xs) \<and> (\<forall>x\<in>set (take i xs). \<forall>y\<in>set (drop i xs). P x y)"
    unfolding sorted_wrt_append by blast
  have sub: "set (drop (Suc i) xs) \<subseteq> set (drop i xs)"
    by (rule set_drop_subset_set_drop) simp
  have "sorted_wrt P (drop (Suc i) xs)" using assms by (rule sorted_wrt_drop)
  with parts sub show ?thesis unfolding sorted_wrt_append by blast
qed

lemma sorted_labels_remove:
  assumes "sorted_labels es"
  shows "sorted_labels (take i es @ drop (Suc i) es)"
  using sorted_wrt_remove_nth[of "(<)" "map fst es" i] assms
  by (simp add: sorted_labels_def take_map drop_map)

lemma sorted_labels_addEdge:
  assumes "sorted_labels es" "fst e \<notin> fst ` set es"
  shows "sorted_labels (addEdge es e)"
proof -
  have "distinct (map fst es)" 
    using assms(1) by (simp add: sorted_labels_def strict_sorted_iff)
  then have "distinct (map fst (es @ [e]))" using assms(2) by simp
  then have "distinct (map fst (sort_key fst (es @ [e])))"
    by (metis distinct_map distinct_sort set_sort)
  moreover have "sorted (map fst (sort_key fst (es @ [e])))" by (rule sorted_sort_key)
  ultimately show ?thesis by (simp add: sorted_labels_def addEdge_def strict_sorted_iff)
qed

lemma mset_addEdge: "mset (addEdge es e) = add_mset e (mset es)"
  by (simp add: addEdge_def)

lemma set_addEdge: "set (addEdge es e) = insert e (set es)"
  by (simp add: addEdge_def)

fun sorted_node :: "'v Node \<Rightarrow> bool" where
  "sorted_node (Node lf p es) = (sorted_labels es \<and> list_all (\<lambda>e. sorted_node (snd e)) es)"

fun count_values :: "'v Node \<Rightarrow> nat" where
  "count_values (Node lf p es) =
     (case lf of None \<Rightarrow> 0 | Some _ \<Rightarrow> 1) + sum_list (map (\<lambda>e. count_values (snd e)) es)"

lemma sorted_node_sel:
  "sorted_node n = (sorted_labels (edges n) \<and> list_all (\<lambda>e. sorted_node (snd e)) (edges n))"
  by (cases n) simp

lemma count_values_sel:
  "count_values n =
     (case leaf n of None \<Rightarrow> 0 | Some _ \<Rightarrow> 1) + sum_list (map (\<lambda>e. count_values (snd e)) (edges n))"
  by (cases n) simp

lemma sorted_node_child:
  "sorted_node n \<Longrightarrow> i < length (edges n) \<Longrightarrow> sorted_node (snd (edges n ! i))"
  by (cases n) (simp add: list_all_length)

lemma sorted_node_setChild:
  assumes "sorted_node n" "i < length (edges n)" "sorted_node c"
  shows "sorted_node (setChild n i c)"
proof -
  let ?es = "(edges n)[i := (fst (edges n ! i), c)]"
  have "sorted_labels ?es"
    using assms(1,2) sorted_labels_update[of i "edges n" "fst (edges n ! i)" c]
    by (simp add: sorted_node_sel[of n])
  moreover have "list_all (\<lambda>e. sorted_node (snd e)) ?es"
    using assms by (auto simp: sorted_node_sel[of n] list_all_length nth_list_update)
  ultimately show ?thesis by (simp add: setChild_def)
qed

lemma sum_list_map_update:
  fixes f :: "'a \<Rightarrow> nat"
  assumes "i < length xs"
  shows "sum_list (map f (xs[i := y])) + f (xs ! i) = sum_list (map f xs) + f y"
proof -
  have "xs = take i xs @ (xs ! i) # drop (Suc i) xs"
    using assms by (simp add: id_take_nth_drop)
  moreover have "xs[i := y] = take i xs @ y # drop (Suc i) xs"
    using assms by (simp add: upd_conv_take_nth_drop)
  ultimately have "sum_list (map f xs) = sum_list (map f (take i xs)) + f (xs ! i) + sum_list (map f (drop (Suc i) xs))"
    and "sum_list (map f (xs[i := y])) = sum_list (map f (take i xs)) + f y + sum_list (map f (drop (Suc i) xs))"
    by (metis (no_types) add.assoc list.simps(9) map_append sum_list.Cons sum_list.append)+
  then show ?thesis by simp
qed

lemma count_values_setChild:
  assumes "i < length (edges n)"
  shows "count_values (setChild n i c) + count_values (snd (edges n ! i))
         = count_values n + count_values c"
  using sum_list_map_update[OF assms, of "\<lambda>e. count_values (snd e)" "(fst (edges n ! i), c)"]
  by (simp add: setChild_def count_values_sel[of n])

lemma sum_list_map_addEdge:
  fixes f :: "'v Edge \<Rightarrow> nat"
  shows "sum_list (map f (addEdge es e)) = sum_list (map f es) + f e"
proof -
  have "sum_list (map f (addEdge es e)) = sum_mset (image_mset f (mset (addEdge es e)))"
    by (metis mset_map sum_mset_sum_list)
  also have "\<dots> = sum_mset (image_mset f (mset es)) + f e"
    by (simp add: mset_addEdge)
  also have "sum_mset (image_mset f (mset es)) = sum_list (map f es)"
    by (metis mset_map sum_mset_sum_list)
  finally show ?thesis .
qed

lemma longestPrefix_le: "longestPrefix a b \<le> length a \<and> longestPrefix a b \<le> length b"
  by (induction a b rule: longestPrefix.induct) auto

lemma longestPrefix_take: "take (longestPrefix a b) a = take (longestPrefix a b) b"
  by (induction a b rule: longestPrefix.induct) auto

lemma longestPrefix_mismatch:
  "longestPrefix a b < length a \<Longrightarrow> longestPrefix a b < length b \<Longrightarrow>
   a ! longestPrefix a b \<noteq> b ! longestPrefix a b"
  by (induction a b rule: longestPrefix.induct) auto

lemma addEdge_single: "addEdge [] e = [e]"
  by (simp add: addEdge_def)

lemma insert_loop_sorted_count:
  "sorted_node n \<Longrightarrow>
   \<exists>sz' n' old existed.
     insert_loop sz n search v = Some (sz', n', old, existed) \<and> sorted_node n' \<and>
     prefix n' = prefix n \<and>
     sz' + int (count_values n) = sz + int (count_values n')"
proof (induction sz n search v rule: insert_loop.induct)
  case (1 sz n search v)
  note sn = "1.prems"
  show ?case
  proof (cases "search = []")
    case True
    then show ?thesis using sn
      by (subst insert_loop.simps)
         (auto simp: sorted_node_sel[of n] count_values_sel[of n] split: option.splits)
  next
    case ne: False
    show ?thesis
    proof (cases "getEdgeIdx (edges n) (hd search)")
      case None
      have nl: "hd search \<notin> fst ` set (edges n)"
        using getEdgeIdx_None[OF _ None] sn by (simp add: sorted_node_sel[of n])
      let ?e = "(hd search, Node (Some v) search [])"
      define n' where "n' = Node (leaf n) (prefix n) (addEdge (edges n) ?e)"
      have eq: "insert_loop sz n search v = Some (sz + 1, n', GoNil, False)"
        using ne None by (subst insert_loop.simps) (simp add: n'_def)
      have "sorted_labels (addEdge (edges n) ?e)"
        using sorted_labels_addEdge[of "edges n" ?e] nl sn by (simp add: sorted_node_sel[of n])
      moreover have "list_all (\<lambda>e. sorted_node (snd e)) (addEdge (edges n) ?e)"
        using sn by (simp add: list_all_iff set_addEdge sorted_node_sel[of n] sorted_labels_def)
      ultimately have s': "sorted_node n'" "prefix n' = prefix n" by (simp_all add: n'_def)
      have "count_values n' = count_values n + 1"
        by (simp add: n'_def count_values_sel[of n] sum_list_map_addEdge)
      with eq s' show ?thesis by auto
    next
      case (Some i)
      define c where "c = snd (edges n ! i)"
      define cp where "cp = longestPrefix search (prefix c)"
      from getEdgeIdx_Some[OF Some] have i: "i < length (edges n)" "fst (edges n ! i) = hd search"
        by simp_all
      have sc: "sorted_node c" unfolding c_def using sn i(1) by (rule sorted_node_child)
      show ?thesis
      proof (cases "cp = length (prefix c)")
        case True
        from "1.IH"[OF ne Some c_def cp_def True sc]
        obtain sz' c' old existed where
          r: "insert_loop sz c (drop cp search) v = Some (sz', c', old, existed)"
          and c': "sorted_node c'" "sz' + int (count_values c) = sz + int (count_values c')"
          by blast
        have eq: "insert_loop sz n search v = Some (sz', setChild n i c', old, existed)"
          using ne Some True r unfolding cp_def c_def
          by (subst insert_loop.simps) (simp add: Let_def)
        have "sorted_node (setChild n i c')" using sn i(1) c'(1) by (rule sorted_node_setChild)
        moreover have "prefix (setChild n i c') = prefix n" by (simp add: setChild_def)
        moreover have "sz' + int (count_values n) = sz + int (count_values (setChild n i c'))"
          using count_values_setChild[OF i(1), of c'] c'(2) by (simp add: c_def)
        ultimately show ?thesis using eq by simp
      next
        case False
        have cple: "cp \<le> length search" "cp < length (prefix c)"
          using longestPrefix_le[of search "prefix c"] False by (simp_all add: cp_def)
        define old_n where "old_n = Node (leaf c) (drop cp (prefix c)) (edges c)"
        define restored where "restored = addEdge [] (prefix c ! cp, old_n)"
        define search' where "search' = drop cp search"
        define child where "child =
            (if search' = [] then Node (Some v) (take cp search) restored
             else Node None (take cp search)
                    (addEdge restored (hd search', Node (Some v) search' [])))"
        have upd: "updateEdge (edges n) (hd search) child = Some ((edges n)[i := (hd search, child)])"
          using sn i by (intro updateEdge_found) (simp_all add: sorted_node_sel[of n])
        let ?n' = "Node (leaf n) (prefix n) ((edges n)[i := (hd search, child)])"
        have eq: "insert_loop sz n search v = Some (sz + 1, ?n', GoNil, False)"
          using ne Some False upd
          unfolding child_def search'_def restored_def old_n_def cp_def c_def
          by (subst insert_loop.simps) (simp add: Let_def split del: if_split)
        have so: "sorted_node old_n" "count_values old_n = count_values c"
          using sc by (simp_all add: old_n_def sorted_node_sel[of c] count_values_sel[of c])
        have r1: "restored = [(prefix c ! cp, old_n)]" by (simp add: restored_def addEdge_single)
        have child_ok: "sorted_node child \<and> count_values child = count_values c + 1"
        proof (cases "search' = []")
          case True
          then show ?thesis using so by (simp add: child_def r1 sorted_labels_def)
        next
          case sne: False
          then have "cp < length search" by (simp add: search'_def)
          then have "search ! cp \<noteq> prefix c ! cp"
            using longestPrefix_mismatch[of search "prefix c"] cple by (simp add: cp_def)
          moreover have "hd search' = search ! cp"
            using \<open>cp < length search\<close> by (simp add: search'_def hd_drop_conv_nth)
          ultimately have nl: "fst (hd search', Node (Some v) search' []) \<notin> fst ` set restored"
            by (simp add: r1)
          have "sorted_labels restored" by (simp add: r1 sorted_labels_def)
          from sorted_labels_addEdge[OF this nl]
          have "sorted_labels (addEdge restored (hd search', Node (Some v) search' []))" .
          moreover have "list_all (\<lambda>e. sorted_node (snd e))
                           (addEdge restored (hd search', Node (Some v) search' []))"
            using so by (simp add: list_all_iff set_addEdge r1 sorted_labels_def)
          ultimately show ?thesis using sne so
            by (simp add: child_def sum_list_map_addEdge) (simp add: r1)
        qed
        have "sorted_labels ((edges n)[i := (hd search, child)])"
          using sorted_labels_update[OF i(1) i(2), of child] sn by (simp add: sorted_node_sel[of n])
        moreover have "list_all (\<lambda>e. sorted_node (snd e)) ((edges n)[i := (hd search, child)])"
          using sn child_ok i(1)
          by (auto simp: sorted_node_sel[of n] list_all_length nth_list_update)
        ultimately have s': "sorted_node ?n'" by simp
        have "count_values ?n' + count_values c = count_values n + count_values child"
          using sum_list_map_update[OF i(1), of "\<lambda>e. count_values (snd e)" "(hd search, child)"]
          by (simp add: count_values_sel[of n] c_def)
        with child_ok have "count_values ?n' = count_values n + 1" by simp
        with eq s' show ?thesis by auto
      qed
    qed
  qed
qed

lemma sum_list_map_remove_nth:
  fixes f :: "'a \<Rightarrow> nat"
  assumes "i < length xs"
  shows "sum_list (map f (take i xs @ drop (Suc i) xs)) + f (xs ! i) = sum_list (map f xs)"
proof -
  have "xs = take i xs @ (xs ! i) # drop (Suc i) xs"
    using assms by (simp add: id_take_nth_drop)
  then have "sum_list (map f xs) = sum_list (map f (take i xs @ (xs ! i) # drop (Suc i) xs))"
    by simp
  then show ?thesis by simp
qed

lemma mergeChild_sorted:
  assumes "sorted_node n" "length (edges n) = 1"
  shows "sorted_node (mergeChild n)"
proof -
  from assms(2) obtain e where e: "edges n = [e]" by (cases "edges n") auto
  with assms(1) have "sorted_node (snd e)" by (simp add: sorted_node_sel[of n])
  then show ?thesis using e by (simp add: mergeChild_def sorted_node_sel[of "snd e"])
qed

lemma mergeChild_count:
  assumes "leaf n = None" "length (edges n) = 1"
  shows "count_values (mergeChild n) = count_values n"
proof -
  from assms(2) obtain e where e: "edges n = [e]" by (cases "edges n") auto
  then show ?thesis using assms(1)
    by (simp add: mergeChild_def count_values_sel[of n] count_values_sel[of "snd e"])
qed

text \<open>The last step of both deletions: the parent is merged with its only child.\<close>

definition merge_parent :: "bool \<Rightarrow> 'v Node \<Rightarrow> 'v Node" where
  "merge_parent parent_is_root p =
     (if \<not> parent_is_root \<and> length (edges p) = 1 \<and> \<not> HasValue p then mergeChild p else p)"

lemma merge_parent_sorted: "sorted_node p \<Longrightarrow> sorted_node (merge_parent r p)"
  by (simp add: merge_parent_def mergeChild_sorted)

lemma merge_parent_count: "count_values (merge_parent r p) = count_values p"
  by (simp add: merge_parent_def mergeChild_count HasValue_def)

lemma setChild_sel [simp]:
  "leaf (setChild n i c) = leaf n" "prefix (setChild n i c) = prefix n"
  "edges (setChild n i c) = (edges n)[i := (fst (edges n ! i), c)]"
  by (simp_all add: setChild_def)

lemma setChild_setChild: "setChild (setChild n i c) i c' = setChild n i c'"
  by (cases "i < length (edges n)") (simp_all add: setChild_def list_update_beyond)

lemma delete_at_sorted_count:
  assumes sp: "sorted_node p" and i: "i < length (edges p)" "fst (edges p ! i) = label"
    and lf: "leaf (snd (edges p ! i)) = Some v"
  shows "sorted_node (delete_at r p label i) \<and>
         count_values (delete_at r p label i) + 1 = count_values p"
proof -
  define n where "n = snd (edges p ! i)"
  define n1 where "n1 = Node None (prefix n) (edges n)"
  define p1 where "p1 = setChild p i n1"
  define p2 where "p2 = (if length (edges n1) = 0
                then Node (leaf p1) (prefix p1) (delEdge (edges p1) label) else p1)"
  define p3 where "p3 = (if length (edges n1) = 1 then setChild p2 i (mergeChild n1) else p2)"
  have eq: "delete_at r p label i = merge_parent r p3"
    unfolding p3_def p2_def p1_def n1_def n_def
    by (simp add: delete_at_def merge_parent_def Let_def)
  have sn: "sorted_node n" unfolding n_def using sp i(1) by (rule sorted_node_child)
  have sn1: "sorted_node n1" using sn by (simp add: n1_def sorted_node_sel[of n])
  have cn1: "count_values n1 + 1 = count_values n"
    using lf by (simp add: n1_def n_def[symmetric] count_values_sel[of n])
  have sp1: "sorted_node p1" unfolding p1_def using sp i(1) sn1 by (rule sorted_node_setChild)
  have cp1: "count_values p1 + 1 = count_values p"
    using count_values_setChild[OF i(1), of n1] cn1 by (simp add: p1_def n_def)
  have ep1: "i < length (edges p1)" "fst (edges p1 ! i) = label"
    using i by (simp_all add: p1_def)
  have "sorted_node p3 \<and> count_values p3 + 1 = count_values p"
  proof (cases "length (edges n1) = 0")
    case True
    have de: "delEdge (edges p1) label = take i (edges p1) @ drop (Suc i) (edges p1)"
      using sp1 ep1 by (intro delEdge_found) (simp_all add: sorted_node_sel[of p1])
    have "sorted_labels (delEdge (edges p1) label)"
      unfolding de using sp1 by (intro sorted_labels_remove) (simp add: sorted_node_sel[of p1])
    moreover have "list_all (\<lambda>e. sorted_node (snd e)) (delEdge (edges p1) label)"
      unfolding de using sp1
      by (auto simp: sorted_node_sel[of p1] list_all_iff dest: in_set_takeD in_set_dropD)
    ultimately have s2: "sorted_node p2" using True by (simp add: p2_def)
    have "snd (edges p1 ! i) = n1" using i(1) by (simp add: p1_def)
    moreover have "count_values n1 = 0" using True by (simp add: n1_def)
    ultimately have "count_values p2 = count_values p1"
      using sum_list_map_remove_nth[OF ep1(1), of "\<lambda>e. count_values (snd e)"] True
      by (simp add: p2_def de count_values_sel[of p1])
    moreover have "p3 = p2" using True by (simp add: p3_def)
    ultimately show ?thesis using s2 cp1 by simp
  next
    case False
    then have p2: "p2 = p1" by (simp add: p2_def)
    show ?thesis
    proof (cases "length (edges n1) = 1")
      case True
      have p3: "p3 = setChild p i (mergeChild n1)"
        using True by (simp add: p3_def p2 p1_def setChild_setChild)
      have "sorted_node (mergeChild n1)" using sn1 True by (rule mergeChild_sorted)
      then have "sorted_node p3" unfolding p3 using sp i(1) by (intro sorted_node_setChild)
      moreover have "count_values (mergeChild n1) = count_values n1"
        using True by (intro mergeChild_count) (simp_all add: n1_def)
      then have "count_values p3 + 1 = count_values p"
        using count_values_setChild[OF i(1), of "mergeChild n1"] cn1 by (simp add: p3 n_def)
      ultimately show ?thesis by simp
    next
      case F2: False
      then have "p3 = p1" by (simp add: p3_def p2)
      with sp1 cp1 show ?thesis by simp
    qed
  qed
  then show ?thesis by (simp add: eq merge_parent_sorted merge_parent_count)
qed

lemma delete_loop_sorted_count:
  "sorted_node n \<Longrightarrow>
   (case delete_loop r n search of
      Miss \<Rightarrow> True
    | Here val \<Rightarrow> search = [] \<and> leaf n = Some val
    | Below val n' \<Rightarrow> sorted_node n' \<and> count_values n' + 1 = count_values n)"
proof (induction r n search rule: delete_loop.induct)
  case (1 is_root n search)
  note sn = "1.prems"
  show ?case
  proof (cases "search = []")
    case True
    then show ?thesis by (subst delete_loop.simps) (simp split: option.splits)
  next
    case ne: False
    show ?thesis
    proof (cases "getEdgeIdx (edges n) (hd search)")
      case None
      with ne show ?thesis by (subst delete_loop.simps) simp
    next
      case (Some i)
      define c where "c = snd (edges n ! i)"
      from getEdgeIdx_Some[OF Some] have i: "i < length (edges n)" "fst (edges n ! i) = hd search"
        by simp_all
      have sc: "sorted_node c" unfolding c_def using sn i(1) by (rule sorted_node_child)
      show ?thesis
      proof (cases "HasPrefix search (prefix c)")
        case False
        with ne Some show ?thesis unfolding c_def by (subst delete_loop.simps) simp
      next
        case True
        define res where "res = delete_loop False c (drop (length (prefix c)) search)"
        have eq: "delete_loop is_root n search =
                    (case res of Miss \<Rightarrow> Miss
                     | Here val \<Rightarrow> Below val (delete_at is_root n (hd search) i)
                     | Below val c' \<Rightarrow> Below val (setChild n i c'))"
          using ne Some True unfolding res_def c_def
          by (subst delete_loop.simps) (simp add: Let_def)
        have ih: "case res of Miss \<Rightarrow> True
                  | Here val \<Rightarrow> drop (length (prefix c)) search = [] \<and> leaf c = Some val
                  | Below val c' \<Rightarrow> sorted_node c' \<and> count_values c' + 1 = count_values c"
          unfolding res_def by (rule "1.IH"[OF ne Some c_def True sc])
        show ?thesis
        proof (cases res)
          case Miss
          then show ?thesis by (simp add: eq)
        next
          case (Here val)
          with ih have "leaf (snd (edges n ! i)) = Some val" by (simp add: c_def)
          from delete_at_sorted_count[OF sn i this, of is_root] Here show ?thesis
            by (simp add: eq)
        next
          case (Below val c')
          with ih have c': "sorted_node c'" "count_values c' + 1 = count_values c" by simp_all
          have "sorted_node (setChild n i c')" using sn i(1) c'(1) by (rule sorted_node_setChild)
          moreover have "count_values (setChild n i c') + 1 = count_values n"
            using count_values_setChild[OF i(1), of c'] c'(2) by (simp add: c_def)
          ultimately show ?thesis using Below by (simp add: eq)
        qed
      qed
    qed
  qed
qed

text \<open>
  The values below a node with their keys, in the order of the pre-order walk; \<open>pre\<close> is
  the key of the parent.
\<close>

fun entries :: "string \<Rightarrow> 'v Node \<Rightarrow> (string \<times> 'v) list" where
  "entries pre (Node lf p es) =
     (case lf of None \<Rightarrow> [] | Some v \<Rightarrow> [(pre @ p, v)])
     @ concat (map (\<lambda>e. entries (pre @ p) (snd e)) es)"

text \<open>Calling the callback on a list of entries, up to the first call that stops.\<close>

fun visit :: "('v, 's) WalkFn \<Rightarrow> (string \<times> 'v) list \<Rightarrow> 's \<Rightarrow> bool \<times> 's" where
  "visit fn [] s = (False, s)"
| "visit fn (kv # kvs) s =
     (case fn (fst kv) (snd kv) s of
        (True, s') \<Rightarrow> (True, s')
      | (False, s') \<Rightarrow> visit fn kvs s')"

lemma visit_append:
  "visit fn (xs @ ys) s =
     (case visit fn xs s of (True, s') \<Rightarrow> (True, s') | (False, s') \<Rightarrow> visit fn ys s')"
  by (induction xs arbitrary: s) (auto split: prod.splits bool.splits)

lemma walk_visit:
  fixes n :: "'v Node" and es :: "'v Edge list" and fn :: "('v, 's) WalkFn"
  shows "recursiveWalk pre n fn s = visit fn (entries pre n) s"
    and "walk_edges pre' es fn s' = visit fn (concat (map (\<lambda>e. entries pre' (snd e)) es)) s'"
proof (induction pre n fn s and pre' es fn s' rule: recursiveWalk_walk_edges.induct)
  case (1 pre lf p es fn s)
  show ?case
  proof (cases lf)
    case None
    with "1.IH"(1)[OF refl None] show ?thesis by simp
  next
    case (Some v)
    obtain stop s1 where f: "fn (pre @ p) v s = (stop, s1)" by (cases "fn (pre @ p) v s")
    show ?thesis
    proof (cases stop)
      case True
      with f Some show ?thesis by simp
    next
      case False
      then have "stop = False" by simp
      from "1.IH"(2)[OF refl Some f[symmetric] this] f Some False show ?thesis by simp
    qed
  qed
next
  case (2 newPrefix fn s)
  show ?case by simp
next
  case (3 newPrefix e es fn s)
  obtain stop s1 where r: "recursiveWalk newPrefix (snd e) fn s = (stop, s1)"
    by (cases "recursiveWalk newPrefix (snd e) fn s")
  show ?case
  proof (cases stop)
    case True
    with r "3.IH"(1) show ?thesis by (simp add: visit_append)
  next
    case False
    then have "stop = False" by simp
    from "3.IH"(2)[OF r[symmetric] this] r "3.IH"(1) False show ?thesis
      by (simp add: visit_append)
  qed
qed

lemma entries_sel:
  "entries pre n =
     (case leaf n of None \<Rightarrow> [] | Some v \<Rightarrow> [(pre @ prefix n, v)])
     @ concat (map (\<lambda>e. entries (pre @ prefix n) (snd e)) (edges n))"
  by (cases n) (simp split: option.splits)

lemma length_entries: "length (entries pre n) = count_values n"
proof (induction n arbitrary: pre)
  case (Node lf p es)
  have "\<And>e. e \<in> set es \<Longrightarrow> length (entries (pre @ p) (snd e)) = count_values (snd e)"
    using Node.IH snds.intros by blast
  then have "map (\<lambda>e. length (entries (pre @ p) (snd e))) es = map (\<lambda>e. count_values (snd e)) es"
    by simp
  then have "sum_list (map (\<lambda>e. length (entries (pre @ p) (snd e))) es)
             = sum_list (map (\<lambda>e. count_values (snd e)) es)"
    by (rule arg_cong)
  then show ?case by (simp add: length_concat comp_def split: option.splits)
qed

lemma visit_never_stops:
  "visit (\<lambda>k v s. (False, g k v s)) kvs s = (False, fold (\<lambda>kv. g (fst kv) (snd kv)) kvs s)"
  by (induction kvs arbitrary: s) auto

lemma walk_count:
  "recursiveWalk pre n (\<lambda>s v cnt. (False, cnt + 1)) k = (False, k + int (count_values n))"
proof -
  have "fold (\<lambda>kv cnt. cnt + 1) kvs k = k + int (length kvs)" for kvs :: "(string \<times> 'a) list" and k :: int
    by (induction kvs arbitrary: k) auto
  then show ?thesis
    by (simp add: walk_visit visit_never_stops length_entries)
qed

lemma subTreeSize_count: "subTreeSize n = int (count_values n)"
  by (simp add: subTreeSize_def walk_count)

lemma deletePrefix_at_sorted_count:
  assumes sp: "sorted_node p" and i: "i < length (edges p)"
  shows "sorted_node (deletePrefix_at r p i) \<and>
         count_values (deletePrefix_at r p i) + count_values (snd (edges p ! i)) = count_values p"
proof -
  define n where "n = snd (edges p ! i)"
  define p1 where "p1 = setChild p i (Node None (prefix n) [])"
  have eq: "deletePrefix_at r p i = merge_parent r p1"
    unfolding p1_def n_def by (simp add: deletePrefix_at_def merge_parent_def Let_def)
  have "sorted_node (Node None (prefix n) [])" by (simp add: sorted_labels_def)
  with sp i have "sorted_node p1" unfolding p1_def by (intro sorted_node_setChild)
  moreover have "count_values p1 + count_values n = count_values p"
    using count_values_setChild[OF i, of "Node None (prefix n) []"] by (simp add: p1_def n_def)
  ultimately show ?thesis
    by (simp add: eq merge_parent_sorted merge_parent_count n_def)
qed

lemma deletePrefix_sorted_count:
  "sorted_node n \<Longrightarrow>
   (case deletePrefix r n pre of
      Miss \<Rightarrow> True
    | Here cnt \<Rightarrow> cnt = int (count_values n)
    | Below cnt n' \<Rightarrow> sorted_node n' \<and> int (count_values n') + cnt = int (count_values n))"
proof (induction r n pre rule: deletePrefix.induct)
  case (1 is_root n pre)
  note sn = "1.prems"
  show ?case
  proof (cases "pre = []")
    case True
    then show ?thesis by (subst deletePrefix.simps) (simp add: subTreeSize_count)
  next
    case ne: False
    show ?thesis
    proof (cases "getEdgeIdx (edges n) (hd pre)")
      case None
      with ne show ?thesis by (subst deletePrefix.simps) simp
    next
      case (Some i)
      define child where "child = snd (edges n ! i)"
      from getEdgeIdx_Some[OF Some] have i: "i < length (edges n)" by simp
      have sc: "sorted_node child" unfolding child_def using sn i by (rule sorted_node_child)
      show ?thesis
      proof (cases "\<not> HasPrefix (prefix child) pre \<and> \<not> HasPrefix pre (prefix child)")
        case True
        with ne Some show ?thesis unfolding child_def by (subst deletePrefix.simps) simp
      next
        case False
        define pre' where "pre' = (if length (prefix child) > length pre
                             then drop (length pre) pre
                             else drop (length (prefix child)) pre)"
        define res where "res = deletePrefix False child pre'"
        have eq: "deletePrefix is_root n pre =
                    (case res of Miss \<Rightarrow> Miss
                     | Here cnt \<Rightarrow> Below cnt (deletePrefix_at is_root n i)
                     | Below cnt child' \<Rightarrow> Below cnt (setChild n i child'))"
          using ne Some False unfolding res_def pre'_def child_def
          by (subst deletePrefix.simps)
             (cases "HasPrefix (prefix (snd (edges n ! i))) pre";
              simp add: Let_def split del: if_split)
        have ih: "case res of Miss \<Rightarrow> True
                  | Here cnt \<Rightarrow> cnt = int (count_values child)
                  | Below cnt c' \<Rightarrow> sorted_node c' \<and>
                      int (count_values c') + cnt = int (count_values child)"
          unfolding res_def by (rule "1.IH"[OF ne Some child_def False pre'_def sc])
        show ?thesis
        proof (cases res)
          case Miss
          then show ?thesis by (simp add: eq)
        next
          case (Here cnt)
          from deletePrefix_at_sorted_count[OF sn i, of is_root] Here ih show ?thesis
            by (simp add: eq child_def)
        next
          case (Below cnt c')
          with ih have c': "sorted_node c'"
            "int (count_values c') + cnt = int (count_values child)" by simp_all
          have "sorted_node (setChild n i c')" using sn i c'(1) by (rule sorted_node_setChild)
          moreover have "int (count_values (setChild n i c')) + cnt = int (count_values n)"
            using count_values_setChild[OF i, of c'] c'(2) by (simp add: child_def)
          ultimately show ?thesis using Below by (simp add: eq)
        qed
      qed
    qed
  qed
qed

text \<open>
  What \<open>size\<close> is meant to be, together with the order of the edges that the binary
  searches need.
\<close>

definition size_invar :: "'v Tree \<Rightarrow> bool" where
  "size_invar t = (sorted_node (root t) \<and> tsize t = int (count_values (root t)))"

lemma New_size_invar: "size_invar New"
  by (simp add: size_invar_def New_def sorted_labels_def)

lemma Insert_size_invar:
  assumes "size_invar t"
  shows "\<exists>t' old existed. Insert t k v = Some (t', old, existed) \<and> size_invar t'"
proof -
  from assms have "sorted_node (root t)" by (simp add: size_invar_def)
  from insert_loop_sorted_count[OF this, of "tsize t" k v]
  obtain sz' n' old existed where
    r: "insert_loop (tsize t) (root t) k v = Some (sz', n', old, existed)"
    and s: "sorted_node n'" "sz' + int (count_values (root t)) = tsize t + int (count_values n')"
    by blast
  from r have "Insert t k v = Some (\<lparr>root = n', tsize = sz'\<rparr>, old, existed)"
    by (simp add: Insert_def)
  moreover have "size_invar \<lparr>root = n', tsize = sz'\<rparr>"
    using s assms by (simp add: size_invar_def)
  ultimately show ?thesis by blast
qed

lemma Delete_size_invar:
  assumes "size_invar t"
  shows "size_invar (fst (Delete t k))"
proof -
  from assms have sr: "sorted_node (root t)" and sz: "tsize t = int (count_values (root t))"
    by (simp_all add: size_invar_def)
  show ?thesis
  proof (cases "delete_loop True (root t) k")
    case Miss
    with assms show ?thesis by (simp add: Delete_def)
  next
    case (Here val)
    with delete_loop_sorted_count[OF sr, where r = True and search = k] have "leaf (root t) = Some val" by simp
    then have "count_values (Node None (prefix (root t)) (edges (root t))) + 1
               = count_values (root t)"
      by (simp add: count_values_sel[of "root t"])
    moreover have "sorted_node (Node None (prefix (root t)) (edges (root t)))"
      using sr by (simp add: sorted_node_sel[of "root t"])
    ultimately show ?thesis using Here sz
      by (simp add: Delete_def size_invar_def del: count_values.simps sorted_node.simps)
  next
    case (Below val r)
    with delete_loop_sorted_count[OF sr, where r = True and search = k]
    have "sorted_node r" "count_values r + 1 = count_values (root t)" by simp_all
    then show ?thesis using Below sz by (simp add: Delete_def size_invar_def)
  qed
qed

lemma DeletePrefix_size_invar:
  assumes "size_invar t"
  shows "size_invar (fst (DeletePrefix t p))"
proof -
  from assms have sr: "sorted_node (root t)" and sz: "tsize t = int (count_values (root t))"
    by (simp_all add: size_invar_def)
  show ?thesis
  proof (cases "deletePrefix True (root t) p")
    case Miss
    with assms show ?thesis by (simp add: DeletePrefix_def)
  next
    case (Here cnt)
    with deletePrefix_sorted_count[OF sr, where r = True and pre = p] have "cnt = int (count_values (root t))"
      by simp
    then show ?thesis using Here sz
      by (simp add: DeletePrefix_def size_invar_def sorted_labels_def)
  next
    case (Below cnt r)
    with deletePrefix_sorted_count[OF sr, where r = True and pre = p]
    have "sorted_node r" "int (count_values r) + cnt = int (count_values (root t))" by simp_all
    then show ?thesis using Below sz by (simp add: DeletePrefix_def size_invar_def)
  qed
qed

lemma apply_op_size_invar:
  "size_invar t \<Longrightarrow> \<exists>t'. apply_op t x = Some t' \<and> size_invar t'"
proof (cases x)
  case (OpInsert k v)
  assume "size_invar t"
  from Insert_size_invar[OF this, of k v] OpInsert show ?thesis by auto
next
  case (OpDelete k)
  assume "size_invar t"
  from Delete_size_invar[OF this, of k] OpDelete show ?thesis by simp
next
  case (OpDeletePrefix p)
  assume "size_invar t"
  from DeletePrefix_size_invar[OF this, of p] OpDeletePrefix show ?thesis by simp
qed

lemma run_ops_size_invar:
  "size_invar t \<Longrightarrow> \<exists>t'. run_ops t xs = Some t' \<and> size_invar t'"
proof (induction xs arbitrary: t)
  case Nil
  then show ?case by simp
next
  case (Cons x xs)
  from apply_op_size_invar[OF Cons.prems, of x]
  obtain t1 where t1: "apply_op t x = Some t1" "size_invar t1" by blast
  from Cons.IH[OF t1(2)] t1(1) show ?case by simp
qed

text \<open>
  C7: after every public operation the size field, as returned by Len, is the number of
  nodes that hold a value. Every run of Insert, Delete and DeletePrefix from the empty
  tree ends (no operation panics) in a tree with that property; the queries return no
  tree and change nothing.
\<close>

theorem Len_is_number_of_values:
  "\<exists>t. run_ops New ops = Some t \<and> Len t = int (count_values (root t))"
  using run_ops_size_invar[OF New_size_invar, of ops] by (auto simp: size_invar_def Len_def)

theorem Len_is_number_of_values_witness:
  "\<exists>t. run_ops New [OpInsert ''foo'' (1::nat), OpInsert ''foobar'' 2, OpInsert ''foo'' 3,
                     OpDelete ''foo'', OpInsert ''food'' 4, OpDeletePrefix ''foob'']
          = Some t \<and> Len t = 1 \<and> count_values (root t) = 1"
proof -
  from Len_is_number_of_values[of "[OpInsert ''foo'' (1::nat), OpInsert ''foobar'' 2,
       OpInsert ''foo'' 3, OpDelete ''foo'', OpInsert ''food'' 4, OpDeletePrefix ''foob'']"]
  obtain t where t: "run_ops New [OpInsert ''foo'' (1::nat), OpInsert ''foobar'' 2,
       OpInsert ''foo'' 3, OpDelete ''foo'', OpInsert ''food'' 4, OpDeletePrefix ''foob''] = Some t"
    "Len t = int (count_values (root t))" by blast
  have "run_ops New [OpInsert ''foo'' (1::nat), OpInsert ''foobar'' 2,
       OpInsert ''foo'' 3, OpDelete ''foo'', OpInsert ''food'' 4, OpDeletePrefix ''foob'']
       = Some \<lparr>root = Node None [] [(CHR ''f'', Node None ''foo''
            [(CHR ''b'', Node None ''bar'' []), (CHR ''d'', Node (Some 4) ''d'' [])])], tsize = 1\<rparr>"
    by code_simp
  with t show ?thesis by (auto simp: Len_def)
qed

text \<open>
  C9: on a slice in label order, \<open>updateEdge\<close> panics exactly when no edge has the label,
  and otherwise replaces the child of the edge with that label and nothing else. \<open>Insert\<close>
  never reaches the panic on a tree whose edges are in label order, and every tree built
  from the empty tree by the public operations is such a tree.
\<close>

theorem updateEdge_panics_iff_missing:
  "(sorted_labels es \<longrightarrow>
      ((updateEdge es label node = None) = (label \<notin> fst ` set es)) \<and>
      (\<forall>i < length es. fst (es ! i) = label \<longrightarrow>
         updateEdge es label node = Some (es[i := (label, node)]))) \<and>
   (sorted_node (root t) \<longrightarrow> Insert t k v \<noteq> None) \<and>
   (\<exists>t'. run_ops New ops = Some t' \<and> sorted_node (root t') \<and> Insert t' k v \<noteq> None)"
proof (intro conjI impI allI)
  assume s: "sorted_labels es"
  show "(updateEdge es label node = None) = (label \<notin> fst ` set es)"
  proof
    assume n: "updateEdge es label node = None"
    show "label \<notin> fst ` set es"
    proof
      assume "label \<in> fst ` set es"
      then obtain j where j: "j < length es" "fst (es ! j) = label"
        by (auto simp: in_set_conv_nth)
      from updateEdge_found[OF s j, of node] n show False by simp
    qed
  next
    assume "label \<notin> fst ` set es"
    then show "updateEdge es label node = None" by (rule updateEdge_missing)
  qed
next
  fix i
  assume "sorted_labels es" "i < length es" "fst (es ! i) = label"
  then show "updateEdge es label node = Some (es[i := (label, node)])"
    by (rule updateEdge_found)
next
  assume "sorted_node (root t)"
  from insert_loop_sorted_count[OF this, of "tsize t" k v] show "Insert t k v \<noteq> None"
    by (auto simp: Insert_def)
next
  from run_ops_size_invar[OF New_size_invar, of ops]
  obtain t' where t': "run_ops New ops = Some t'" "sorted_node (root t')"
    by (auto simp: size_invar_def)
  from insert_loop_sorted_count[OF t'(2), of "tsize t'" k v] have "Insert t' k v \<noteq> None"
    by (auto simp: Insert_def)
  with t' show "\<exists>t'. run_ops New ops = Some t' \<and> sorted_node (root t') \<and> Insert t' k v \<noteq> None"
    by blast
qed

theorem updateEdge_panics_iff_missing_witness:
  "sorted_labels [(CHR ''a'', Node (Some (5::nat)) ''a'' []), (CHR ''c'', Node (Some 2) ''c'' [])]
   \<and> updateEdge [(CHR ''a'', Node (Some (5::nat)) ''a'' []), (CHR ''c'', Node (Some 2) ''c'' [])]
         (CHR ''b'') (Node None ''b'' []) = None
   \<and> updateEdge [(CHR ''a'', Node (Some (5::nat)) ''a'' []), (CHR ''c'', Node (Some 2) ''c'' [])]
         (CHR ''c'') (Node None ''c'' [])
       = Some [(CHR ''a'', Node (Some 5) ''a'' []), (CHR ''c'', Node None ''c'' [])]
   \<and> sorted_node (root (New :: nat Tree))
   \<and> Insert (New :: nat Tree) ''ab'' 7 \<noteq> None"
proof -
  let ?es = "[(CHR ''a'', Node (Some (5::nat)) ''a'' []), (CHR ''c'', Node (Some 2) ''c'' [])]"
  have s: "sorted_labels ?es" by (simp add: sorted_labels_def)
  have r: "sorted_node (root (New :: nat Tree))" by (simp add: New_def sorted_labels_def)
  from updateEdge_panics_iff_missing[of ?es "CHR ''b''" "Node None ''b'' []" New "''ab''" 7 "[]"] s
  have "(updateEdge ?es (CHR ''b'') (Node None ''b'' []) = None) = (CHR ''b'' \<notin> fst ` set ?es)"
    by blast
  then have a: "updateEdge ?es (CHR ''b'') (Node None ''b'' []) = None" by simp
  from updateEdge_panics_iff_missing[of ?es "CHR ''c''" "Node None ''c'' []" New "''ab''" 7 "[]"] s
  have "\<forall>i < length ?es. fst (?es ! i) = CHR ''c'' \<longrightarrow>
          updateEdge ?es (CHR ''c'') (Node None ''c'' []) = Some (?es[i := (CHR ''c'', Node None ''c'' [])])"
    by blast
  from this[rule_format, of 1]
  have b: "updateEdge ?es (CHR ''c'') (Node None ''c'' [])
       = Some [(CHR ''a'', Node (Some 5) ''a'' []), (CHR ''c'', Node None ''c'' [])]"
    by simp
  from updateEdge_panics_iff_missing[of ?es "CHR ''c''" "Node None ''c'' []" New "''ab''" 7 "[]"] r
  have c: "Insert (New :: nat Tree) ''ab'' 7 \<noteq> None"
    by blast
  from s a b r c show ?thesis by blast
qed

text \<open>
  The label of an edge is the first byte of the child's prefix (so no child has an empty
  prefix).
\<close>

fun labelled_node :: "'v Node \<Rightarrow> bool" where
  "labelled_node (Node lf p es) =
     list_all (\<lambda>e. prefix (snd e) \<noteq> [] \<and> hd (prefix (snd e)) = fst e \<and> labelled_node (snd e)) es"

definition labelled_edge :: "'v Edge \<Rightarrow> bool" where
  "labelled_edge e = (prefix (snd e) \<noteq> [] \<and> hd (prefix (snd e)) = fst e \<and> labelled_node (snd e))"

lemma labelled_node_Node [simp]: "labelled_node (Node lf p es) = list_all labelled_edge es"
  by (simp add: labelled_edge_def[abs_def])

declare labelled_node.simps [simp del]

lemma labelled_node_sel: "labelled_node n = list_all labelled_edge (edges n)"
  by (cases n) simp

lemma labelled_node_child:
  "labelled_node n \<Longrightarrow> i < length (edges n) \<Longrightarrow> labelled_edge (edges n ! i)"
  by (simp add: labelled_node_sel[of n] list_all_length)

lemma labelled_node_setChild:
  assumes "labelled_node n" "i < length (edges n)" "labelled_edge (fst (edges n ! i), c)"
  shows "labelled_node (setChild n i c)"
  using assms by (auto simp: labelled_node_sel[of n] labelled_node_sel[of "setChild n i c"]
      list_all_length nth_list_update)

lemma longestPrefix_pos: "a \<noteq> [] \<Longrightarrow> b \<noteq> [] \<Longrightarrow> hd a = hd b \<Longrightarrow> 0 < longestPrefix a b"
  by (cases a; cases b) auto

lemma insert_loop_labelled:
  "sorted_node n \<Longrightarrow> labelled_node n \<Longrightarrow>
   insert_loop sz n search v = Some (sz', n', old, existed) \<Longrightarrow> labelled_node n'"
proof (induction sz n search v arbitrary: sz' n' old existed rule: insert_loop.induct)
  case (1 sz n search v)
  note sn = "1.prems"(1) and ln = "1.prems"(2) and res = "1.prems"(3)
  show ?case
  proof (cases "search = []")
    case True
    with res have "edges n' = edges n"
      by (subst (asm) insert_loop.simps) (auto split: option.splits)
    with ln show ?thesis by (simp add: labelled_node_sel[of n] labelled_node_sel[of n'])
  next
    case ne: False
    show ?thesis
    proof (cases "getEdgeIdx (edges n) (hd search)")
      case None
      let ?e = "(hd search, Node (Some v) search [])"
      from res ne None have "edges n' = addEdge (edges n) ?e"
        by (subst (asm) insert_loop.simps) auto
      moreover have "labelled_edge ?e" using ne by (simp add: labelled_edge_def)
      ultimately show ?thesis using ln
        by (simp add: labelled_node_sel[of n] labelled_node_sel[of n'] list_all_iff set_addEdge)
    next
      case (Some i)
      define c where "c = snd (edges n ! i)"
      define cp where "cp = longestPrefix search (prefix c)"
      from getEdgeIdx_Some[OF Some] have i: "i < length (edges n)" "fst (edges n ! i) = hd search"
        by simp_all
      have sc: "sorted_node c" unfolding c_def using sn i(1) by (rule sorted_node_child)
      have lc: "prefix c \<noteq> []" "hd (prefix c) = hd search" "labelled_node c"
        using labelled_node_child[OF ln i(1)] i(2) by (simp_all add: labelled_edge_def c_def)
      show ?thesis
      proof (cases "cp = length (prefix c)")
        case True
        from insert_loop_sorted_count[OF sc, of sz "drop cp search" v]
        obtain sz1 c' old1 ex1 where
          r: "insert_loop sz c (drop cp search) v = Some (sz1, c', old1, ex1)"
          and pc: "prefix c' = prefix c" by blast
        from "1.IH"[OF ne Some c_def cp_def True sc lc(3) r] have lc': "labelled_node c'" .
        have "n' = setChild n i c'"
          using res ne Some True r unfolding cp_def c_def
          by (subst (asm) insert_loop.simps) (simp add: Let_def)
        moreover have "labelled_edge (fst (edges n ! i), c')"
          using lc lc' pc i(2) by (simp add: labelled_edge_def)
        ultimately show ?thesis using labelled_node_setChild[OF ln i(1)] by simp
      next
        case False
        have cple: "cp \<le> length search" "cp < length (prefix c)" "0 < cp"
          using longestPrefix_le[of search "prefix c"] False
            longestPrefix_pos[OF ne lc(1) lc(2)[symmetric]] by (simp_all add: cp_def)
        define old_n where "old_n = Node (leaf c) (drop cp (prefix c)) (edges c)"
        define restored where "restored = addEdge [] (prefix c ! cp, old_n)"
        define search' where "search' = drop cp search"
        define child where "child =
            (if search' = [] then Node (Some v) (take cp search) restored
             else Node None (take cp search)
                    (addEdge restored (hd search', Node (Some v) search' [])))"
        have upd: "updateEdge (edges n) (hd search) child = Some ((edges n)[i := (hd search, child)])"
          using sn i by (intro updateEdge_found) (simp_all add: sorted_node_sel[of n])
        have n': "n' = Node (leaf n) (prefix n) ((edges n)[i := (hd search, child)])"
          using res ne Some False upd
          unfolding child_def search'_def restored_def old_n_def cp_def c_def
          by (subst (asm) insert_loop.simps) (simp add: Let_def split del: if_split)
        have "labelled_edge (prefix c ! cp, old_n)"
          using cple lc(3)
          by (simp add: labelled_edge_def old_n_def hd_drop_conv_nth labelled_node_sel[of c])
        then have lr: "list_all labelled_edge restored"
          by (simp add: restored_def addEdge_single)
        have "search' \<noteq> [] \<Longrightarrow> labelled_edge (hd search', Node (Some v) search' [])"
          by (simp add: labelled_edge_def)
        with lr have "labelled_node child"
          by (simp add: child_def list_all_iff set_addEdge)
        moreover have "prefix child = take cp search" by (simp add: child_def)
        ultimately have "labelled_edge (hd search, child)"
          using cple ne by (simp add: labelled_edge_def hd_take)
        then show ?thesis using ln i(1)
          by (auto simp: n' labelled_node_sel[of n] list_all_length nth_list_update)
      qed
    qed
  qed
qed

lemma key_less_append: "(K @ a < K @ b) = (a < (b :: string))"
  by (induction K) auto

lemma key_less_own: "q \<noteq> [] \<Longrightarrow> K < K @ (q :: string)"
  using key_less_append[of K "[]" q] by (cases q) auto

lemma entries_key_prefix:
  "kv \<in> set (entries pre n) \<Longrightarrow> \<exists>q. fst kv = pre @ prefix n @ q"
proof (induction n arbitrary: pre kv)
  case (Node lf p es)
  from Node.prems consider "lf \<noteq> None" "fst kv = pre @ p"
    | e where "e \<in> set es" "kv \<in> set (entries (pre @ p) (snd e))"
    by (auto split: option.splits)
  then show ?case
  proof cases
    case 1
    then show ?thesis by simp
  next
    case 2
    from Node.IH[OF 2(1) snds.intros 2(2)] show ?thesis by auto
  qed
qed

lemma entries_child_key:
  assumes "labelled_edge e" "kv \<in> set (entries K (snd e))"
  shows "\<exists>q. fst kv = K @ fst e # q"
proof -
  from entries_key_prefix[OF assms(2)] obtain q where "fst kv = K @ prefix (snd e) @ q" by blast
  moreover from assms(1) have "prefix (snd e) = fst e # tl (prefix (snd e))"
    by (cases "prefix (snd e)") (auto simp: labelled_edge_def)
  ultimately have "fst kv = K @ fst e # (tl (prefix (snd e)) @ q)" by (metis append_Cons)
  then show ?thesis by blast
qed

lemma children_sorted:
  "sorted_labels es \<Longrightarrow> list_all labelled_edge es \<Longrightarrow>
   (\<And>e. e \<in> set es \<Longrightarrow> sorted_wrt (<) (map fst (entries K (snd e)))) \<Longrightarrow>
   sorted_wrt (<) (map fst (concat (map (\<lambda>e. entries K (snd e)) es)))"
proof (induction es)
  case Nil
  show ?case by simp
next
  case (Cons e es)
  from Cons.prems(1) have s: "sorted_labels es" and lt: "\<And>e'. e' \<in> set es \<Longrightarrow> fst e < fst e'"
    by (auto simp: sorted_labels_def)
  from Cons.prems(2) have l: "list_all labelled_edge es" and le: "labelled_edge e" by simp_all
  have rest: "sorted_wrt (<) (map fst (concat (map (\<lambda>e. entries K (snd e)) es)))"
    using Cons.IH[OF s l] Cons.prems(3) by simp
  have cross: "fst x < fst y" if x: "x \<in> set (entries K (snd e))"
    and y: "y \<in> set (concat (map (\<lambda>e. entries K (snd e)) es))" for x y
  proof -
    from y obtain e' where e': "e' \<in> set es" "y \<in> set (entries K (snd e'))" by auto
    from l e'(1) have "labelled_edge e'" by (simp add: list_all_iff)
    from entries_child_key[OF this e'(2)] obtain q' where q': "fst y = K @ fst e' # q'" by blast
    from entries_child_key[OF le x] obtain q where q: "fst x = K @ fst e # q" by blast
    from lt[OF e'(1)] show ?thesis by (simp add: q q' key_less_append)
  qed
  have "\<forall>x\<in>set (entries K (snd e)).
          \<forall>y\<in>set (concat (map (\<lambda>e. entries K (snd e)) es)). fst x < fst y"
    using cross by blast
  then show ?case
    using Cons.prems(3)[of e] rest by (simp add: sorted_wrt_append)
qed

lemma entries_sorted:
  "sorted_node n \<Longrightarrow> labelled_node n \<Longrightarrow> sorted_wrt (<) (map fst (entries pre n))"
proof (induction n arbitrary: pre)
  case (Node lf p es)
  let ?K = "pre @ p"
  from Node.prems have s: "sorted_labels es" and l: "list_all labelled_edge es" by simp_all
  have IH: "sorted_wrt (<) (map fst (entries ?K (snd e)))" if "e \<in> set es" for e
  proof -
    from that Node.prems have "sorted_node (snd e)" "labelled_node (snd e)"
      by (simp_all add: list_all_iff labelled_edge_def)
    with Node.IH[OF that snds.intros] show ?thesis by blast
  qed
  have kids: "sorted_wrt (<) (map fst (concat (map (\<lambda>e. entries ?K (snd e)) es)))"
    using s l IH by (rule children_sorted)
  have own: "?K < fst y" if "y \<in> set (concat (map (\<lambda>e. entries ?K (snd e)) es))" for y
  proof -
    from that obtain e where e: "e \<in> set es" "y \<in> set (entries ?K (snd e))" by auto
    from l e(1) have "labelled_edge e" by (simp add: list_all_iff)
    from entries_child_key[OF this e(2)] obtain q where "fst y = ?K @ fst e # q" by blast
    then show ?thesis using key_less_own[of "fst e # q" ?K] by simp
  qed
  have "\<forall>y\<in>set (concat (map (\<lambda>e. entries ?K (snd e)) es)). ?K < fst y"
    using own by blast
  then show ?case using kids by (cases lf) simp_all
qed

lemma entries_distinct:
  "sorted_node n \<Longrightarrow> labelled_node n \<Longrightarrow> distinct (map fst (entries pre n))"
  using entries_sorted[of n pre] strict_sorted_iff[of "map fst (entries pre n)"] by blast

text \<open>The entry of a node itself, and the entries below a list of edges.\<close>

definition own_entry :: "string \<Rightarrow> 'v Node \<Rightarrow> (string \<times> 'v) list" where
  "own_entry pre n = (case leaf n of None \<Rightarrow> [] | Some v \<Rightarrow> [(pre @ prefix n, v)])"

definition kids :: "string \<Rightarrow> 'v Edge list \<Rightarrow> (string \<times> 'v) list" where
  "kids K es = concat (map (\<lambda>e. entries K (snd e)) es)"

lemma entries_own_kids: "entries pre n = own_entry pre n @ kids (pre @ prefix n) (edges n)"
  by (simp add: entries_sel[of pre n] own_entry_def kids_def)

lemma kids_simps [simp]:
  "kids K [] = []"
  "kids K (e # es) = entries K (snd e) @ kids K es"
  "kids K (xs @ ys) = kids K xs @ kids K ys"
  by (simp_all add: kids_def)

lemma kids_split:
  assumes "i < length es"
  shows "kids K es = kids K (take i es) @ entries K (snd (es ! i)) @ kids K (drop (Suc i) es)"
proof -
  have "es = take i es @ (es ! i) # drop (Suc i) es"
    using assms by (simp add: id_take_nth_drop)
  then have "kids K es = kids K (take i es @ (es ! i) # drop (Suc i) es)" by simp
  then show ?thesis by simp
qed

lemma kids_update:
  assumes "i < length es"
  shows "kids K (es[i := (l, c)]) = kids K (take i es) @ entries K c @ kids K (drop (Suc i) es)"
  using assms by (simp add: upd_conv_take_nth_drop)

lemma entries_setChild:
  assumes "i < length (edges n)"
  shows "entries pre (setChild n i c) =
         own_entry pre n @ kids (pre @ prefix n) (take i (edges n))
         @ entries (pre @ prefix n) c @ kids (pre @ prefix n) (drop (Suc i) (edges n))"
  using assms
  by (simp add: entries_own_kids[of pre "setChild n i c"] kids_update own_entry_def
        split: option.splits)

lemma entries_split:
  assumes "i < length (edges n)"
  shows "entries pre n =
         own_entry pre n @ kids (pre @ prefix n) (take i (edges n))
         @ entries (pre @ prefix n) (snd (edges n ! i)) @ kids (pre @ prefix n) (drop (Suc i) (edges n))"
  using kids_split[OF assms, of "pre @ prefix n"] by (simp add: entries_own_kids[of pre n])

lemma kids_key:
  assumes "list_all labelled_edge es" "kv \<in> set (kids K es)"
  shows "\<exists>e \<in> set es. \<exists>q. fst kv = K @ fst e # q"
proof -
  from assms(2) obtain e where e: "e \<in> set es" "kv \<in> set (entries K (snd e))"
    by (auto simp: kids_def)
  from assms(1) e(1) have "labelled_edge e" by (simp add: list_all_iff)
  from entries_child_key[OF this e(2)] e(1) show ?thesis by blast
qed

lemma other_labels:
  assumes "sorted_labels es" "i < length es" "e \<in> set (take i es) \<union> set (drop (Suc i) es)"
  shows "fst e \<noteq> fst (es ! i)"
proof -
  have "\<exists>j. j < length es \<and> j \<noteq> i \<and> e = es ! j"
  proof (cases "e \<in> set (take i es)")
    case True
    then obtain j where "j < length (take i es)" "e = take i es ! j"
      by (auto simp: in_set_conv_nth)
    then have "j < length es \<and> j \<noteq> i \<and> e = es ! j" by simp
    then show ?thesis by blast
  next
    case False
    with assms(3) have "e \<in> set (drop (Suc i) es)" by simp
    then obtain k where "k < length (drop (Suc i) es)" "e = drop (Suc i) es ! k"
      by (auto simp: in_set_conv_nth)
    then have "Suc i + k < length es \<and> Suc i + k \<noteq> i \<and> e = es ! (Suc i + k)" by simp
    then show ?thesis by blast
  qed
  then obtain j where j: "j < length es" "j \<noteq> i" "e = es ! j" by blast
  with sorted_labels_nth_inj[OF assms(1) j(1) assms(2)] show ?thesis by auto
qed

text \<open>
  A predicate on keys that holds of every key not passing through the child at index
  \<open>i\<close> filters only the entries of that child.
\<close>

lemma filter_entries_child:
  assumes s: "sorted_labels (edges n)" and l: "labelled_node n" and i: "i < length (edges n)"
    and P: "\<And>k. (\<nexists>r. k = pre @ prefix n @ fst (edges n ! i) # r) \<Longrightarrow> P k"
  shows "filter (\<lambda>kv. P (fst kv)) (entries pre n) =
         own_entry pre n @ kids (pre @ prefix n) (take i (edges n))
         @ filter (\<lambda>kv. P (fst kv)) (entries (pre @ prefix n) (snd (edges n ! i)))
         @ kids (pre @ prefix n) (drop (Suc i) (edges n))"
proof -
  let ?K = "pre @ prefix n"
  have le: "list_all labelled_edge (edges n)" using l by (simp add: labelled_node_sel[of n])
  have own: "filter (\<lambda>kv. P (fst kv)) (own_entry pre n) = own_entry pre n"
    using P[of ?K] by (simp add: own_entry_def split: option.splits)
  have side: "filter (\<lambda>kv. P (fst kv)) (kids ?K es') = kids ?K es'"
    if sub: "set es' \<subseteq> set (take i (edges n)) \<union> set (drop (Suc i) (edges n))" for es'
  proof -
    have "P (fst kv)" if kv: "kv \<in> set (kids ?K es')" for kv
    proof -
      have "list_all labelled_edge es'"
        using le sub by (auto simp: list_all_iff dest: in_set_takeD in_set_dropD)
      from kids_key[OF this kv] obtain e q where e: "e \<in> set es'" "fst kv = ?K @ fst e # q"
        by blast
      from other_labels[OF s i] e(1) sub have "fst e \<noteq> fst (edges n ! i)" by blast
      with e(2) show ?thesis by (intro P) auto
    qed
    then show ?thesis by (simp add: filter_id_conv)
  qed
  show ?thesis
    by (subst entries_split[OF i]) (simp add: own side)
qed

lemma mergeChild_entries:
  assumes "leaf n = None" "length (edges n) = 1"
  shows "entries pre (mergeChild n) = entries pre n"
proof -
  from assms(2) obtain e where e: "edges n = [e]" by (cases "edges n") auto
  then show ?thesis using assms(1)
    by (simp add: mergeChild_def entries_sel[of pre n] entries_sel[of "pre @ prefix n" "snd e"]
          split: option.splits)
qed

lemma mergeChild_labelled:
  assumes "labelled_node n" "length (edges n) = 1"
  shows "labelled_node (mergeChild n)"
proof -
  from assms(2) obtain e where e: "edges n = [e]" by (cases "edges n") auto
  with assms(1) have "labelled_node (snd e)"
    by (simp add: labelled_node_sel[of n] labelled_edge_def)
  then show ?thesis using e by (simp add: mergeChild_def labelled_node_sel[of "snd e"])
qed

lemma mergeChild_prefix: "\<exists>q. prefix (mergeChild n) = prefix n @ q"
  by (simp add: mergeChild_def split: list.splits)

lemma merge_parent_entries: "entries pre (merge_parent r p) = entries pre p"
  by (simp add: merge_parent_def mergeChild_entries HasValue_def)

lemma merge_parent_labelled: "labelled_node p \<Longrightarrow> labelled_node (merge_parent r p)"
  by (simp add: merge_parent_def mergeChild_labelled)

lemma merge_parent_prefix:
  "(\<exists>q. prefix (merge_parent r p) = prefix p @ q) \<and> (r \<longrightarrow> prefix (merge_parent r p) = prefix p)"
  using mergeChild_prefix[of p] by (simp add: merge_parent_def)

section \<open>Where the code leaves the specification\<close>

text \<open>
  C1 (the compaction invariant holds after any interleaving of insert, delete and
  deletePrefix). \<open>deletePrefix\<close> empties the target node but never takes it out of its
  parent, as \<open>Delete\<close> does with \<open>delEdge\<close>: after \<open>Insert("a", 1)\<close> and
  \<open>DeletePrefix("a")\<close> the root keeps a child with no value and no edge.
\<close>

theorem deletePrefix_leaves_empty_node:
  "run_ops New [OpInsert ''a'' (1::nat), OpDeletePrefix ''a'']
     = Some \<lparr>root = Node None [] [(CHR ''a'', Node None ''a'' [])], tsize = 0\<rparr>
   \<and> \<not> compacted_tree \<lparr>root = Node None [] [(CHR ''a'', Node (None :: nat option) ''a'' [])],
                          tsize = 0\<rparr>"
  by code_simp

text \<open>
  C2 (LongestPrefix returns the longest stored key that is a prefix of the query, with the
  value stored under that key). With "foo" and "foobar" stored, the query "foobaz" leaves
  \<open>Find\<close> in the node of "foobar" with three bytes consumed: the key returned is "foo"
  and the value is the one of "foobar".
\<close>

theorem LongestPrefix_value_of_other_key:
  "run_ops New [OpInsert ''foo'' (1::nat), OpInsert ''foobar'' 2]
     = Some \<lparr>root = Node None []
                 [(CHR ''f'', Node (Some 1) ''foo'' [(CHR ''b'', Node (Some 2) ''bar'' [])])],
              tsize = 2\<rparr>
   \<and> LongestPrefix
        \<lparr>root = Node None []
                 [(CHR ''f'', Node (Some (1::nat)) ''foo'' [(CHR ''b'', Node (Some 2) ''bar'' [])])],
         tsize = 2\<rparr> ''foobaz''
     = (''foo'', GoVal 2, True)"
  by code_simp

text \<open>
  C3 (on an empty tree every query reports not found). \<open>Get\<close> takes the first result of
  \<open>Find\<close>, which only says that the key was consumed: on the empty tree the empty key is
  reported as found, with a nil value.
\<close>

theorem Get_empty_key_on_empty_tree:
  "Get (New :: nat Tree) [] = (GoNil, True)"
  by code_simp

text \<open>
  C4 (Get reports found = false for a key that was never inserted). After inserting
  "foobar" and "food" the key "foo" is the path of a split node without a value, and
  \<open>Get\<close> reports it as found, with a nil value.
\<close>

theorem Get_finds_valueless_split_node:
  "run_ops New [OpInsert ''foobar'' (2::nat), OpInsert ''food'' 3]
     = Some \<lparr>root = Node None []
                 [(CHR ''f'', Node None ''foo''
                    [(CHR ''b'', Node (Some 2) ''bar'' []), (CHR ''d'', Node (Some 3) ''d'' [])])],
              tsize = 2\<rparr>
   \<and> Get \<lparr>root = Node None []
                 [(CHR ''f'', Node None ''foo''
                    [(CHR ''b'', Node (Some (2::nat)) ''bar'' []),
                     (CHR ''d'', Node (Some 3) ''d'' [])])],
            tsize = 2\<rparr> ''foo''
     = (GoNil, True)"
  by code_simp

text \<open>
  C8 (Minimum returns the smallest stored key of a non-empty tree). The empty node that
  \<open>deletePrefix\<close> leaves behind is the first edge of the root, and \<open>Minimum\<close> stops in
  it: with "b" still stored it reports that nothing was found.
\<close>

theorem Minimum_stops_in_emptied_node:
  "run_ops New [OpInsert ''a'' (1::nat), OpInsert ''b'' 2, OpDeletePrefix ''a'']
     = Some \<lparr>root = Node None []
                 [(CHR ''a'', Node None ''a'' []), (CHR ''b'', Node (Some 2) ''b'' [])],
              tsize = 1\<rparr>
   \<and> Get \<lparr>root = Node None []
                 [(CHR ''a'', Node None ''a'' []), (CHR ''b'', Node (Some (2::nat)) ''b'' [])],
            tsize = 1\<rparr> ''b''
     = (GoVal 2, True)
   \<and> Minimum \<lparr>root = Node None []
                 [(CHR ''a'', Node None ''a'' []), (CHR ''b'', Node (Some (2::nat)) ''b'' [])],
                tsize = 1\<rparr>
     = ([], GoNil, False)"
  by code_simp

end
